theory Spec2Isabelle
  imports Main "HOL-Library.Multiset"
begin

section \<open>Machine integers\<close>

text \<open>
  The repository holds two variants of \<^verbatim>\<open>custom::priority_queue\<close>: the complete one
  (\<^verbatim>\<open>src/unnamed/part_000\<close>) and an earlier one (\<^verbatim>\<open>src/priority_queue.h\<close>) whose
  \<open>pop\<close> has its whole body commented out and whose \<open>push\<close> has its \<^verbatim>\<open>push_back\<close>
  commented out. The definitions without a suffix embed the complete variant; the
  definitions with the suffix \<open>_h\<close> embed \<open>percolateDown\<close>, \<open>heapify\<close> and \<open>pop\<close> of
  \<^verbatim>\<open>src/priority_queue.h\<close>.

  The queue has two members, \<^verbatim>\<open>container\<close> and \<^verbatim>\<open>compare\<close>. The container is
  a list (storage offset \<open>k\<close> is \<open>c ! k\<close>), the comparator a function passed to every
  operation. Every member function that mutates the container takes it and returns the
  new one. An exception, and an operation whose behaviour C++ leaves undefined, is a
  value of \<open>error\<close>, returned as \<open>Inl\<close>.

  Heap indices are \<^verbatim>\<open>size_t\<close> in the source, and the loop variable of \<open>heapify\<close> is an
  \<^verbatim>\<open>int\<close>. Here \<^verbatim>\<open>size_t\<close> is 64 bits wide and \<^verbatim>\<open>int\<close> 32 bits, as on the LP64 and LLP64
  platforms. A \<^verbatim>\<open>size_t\<close> is a \<open>nat\<close> below \<open>2 ^ 64\<close>, and each product and sum of the
  source is taken modulo \<open>2 ^ 64\<close> by \<open>size_t\<close>; an \<^verbatim>\<open>int\<close> is an \<open>int\<close>, and the conversion
  of a \<^verbatim>\<open>size_t\<close> to it keeps the low 32 bits in two's complement (\<open>to_int\<close>).
\<close>

definition size_t :: "nat \<Rightarrow> nat" where
  "size_t n = n mod 2 ^ 64"

definition to_int :: "nat \<Rightarrow> int" where
  "to_int n =
     (if n mod 2 ^ 32 < 2 ^ 31 then int (n mod 2 ^ 32) else int (n mod 2 ^ 32) - 2 ^ 32)"

definition INT_MAX :: int where
  "INT_MAX = 2 ^ 31 - 1"

section \<open>The backing container\<close>

datatype error =
    OutOfRange      \<comment> \<open>\<^verbatim>\<open>std::out_of_range\<close>, thrown by \<open>top\<close>\<close>
  | OutOfBounds     \<comment> \<open>\<^verbatim>\<open>container[k]\<close> with \<open>k\<close> outside the storage\<close>
  | PopBackEmpty    \<comment> \<open>\<^verbatim>\<open>container.pop_back()\<close> on empty storage\<close>
  | IntOverflow     \<comment> \<open>\<^verbatim>\<open>i + 1\<close> on an \<^verbatim>\<open>int\<close> equal to \<^verbatim>\<open>INT_MAX\<close>\<close>

text \<open>
  Modelled from the spec: \<^verbatim>\<open>vector.h\<close>, the container's own source, is not among the
  source files. The spec lists what the queue needs of it: index-based random access,
  \<open>size\<close>, \<open>empty\<close>, \<open>front\<close> (the element at offset 0), append and remove-last.
  An access outside the storage and a remove-last on empty storage have no element to
  act on; they are the errors \<open>OutOfBounds\<close> and \<open>PopBackEmpty\<close>.

  The storage is one array object, so a container holds fewer than \<open>2 ^ 63\<close> elements
  (\<^verbatim>\<open>PTRDIFF_MAX\<close>), and an offset from \<open>2 ^ 63\<close> on is outside every container. A list
  of \<open>2 ^ 63\<close> elements or more is no container; the theorems below bound the length,
  and for a list within the bound the second test of \<open>at\<close> changes nothing.
\<close>

definition empty :: "'a list \<Rightarrow> bool" where
  "empty c = (length c = 0)"

definition at :: "'a list \<Rightarrow> nat \<Rightarrow> error + 'a" where
  "at c k = (if k < length c \<and> k < 2 ^ 63 then Inr (c ! k) else Inl OutOfBounds)"

definition front :: "'a list \<Rightarrow> error + 'a" where
  "front c = at c 0"

definition push_back :: "'a \<Rightarrow> 'a list \<Rightarrow> 'a list" where
  "push_back t c = c @ [t]"

definition pop_back :: "'a list \<Rightarrow> error + 'a list" where
  "pop_back c = (if c = [] then Inl PopBackEmpty else Inr (butlast c))"

text \<open>
  \<^verbatim>\<open>container[index - 1]\<close> for a heap index \<open>index\<close> of type \<^verbatim>\<open>size_t\<close>. At
  \<open>index = 0\<close> the subtraction wraps to \<^verbatim>\<open>SIZE_MAX\<close>, an offset no container has.
\<close>

definition heap_at :: "'a list \<Rightarrow> nat \<Rightarrow> error + 'a" where
  "heap_at c index = (if index = 0 then Inl OutOfBounds else at c (index - 1))"

text \<open>
  \<^verbatim>\<open>swap(container[a], container[b])\<close> for two offsets inside the storage. Each
  use below follows a guard or a read that has shown both offsets to be inside.
\<close>

definition swap_at :: "'a list \<Rightarrow> nat \<Rightarrow> nat \<Rightarrow> 'a list" where
  "swap_at c a b = c[a := c ! b, b := c ! a]"

section \<open>The priority queue of \<^verbatim>\<open>src/unnamed/part_000\<close>\<close>

subsection \<open>top\<close>

definition top :: "'a list \<Rightarrow> error + 'a" where
  "top c = (if \<not> empty c then front c else Inl OutOfRange)"

subsection \<open>percolateDown\<close>

text \<open>
  The first \<^verbatim>\<open>if\<close> of \<open>percolateDown\<close>: the index of the bigger child. The second
  operand of \<^verbatim>\<open>&&\<close> is evaluated only when the first holds.
\<close>

definition indexBigger_of :: "('a \<Rightarrow> 'a \<Rightarrow> bool) \<Rightarrow> nat \<Rightarrow> 'a list \<Rightarrow> error + nat" where
  "indexBigger_of compare indexHeap c =
     (let indexLeft = size_t (2 * indexHeap);
          indexRight = size_t (indexLeft + 1)
      in if indexRight \<le> length c then
           (case heap_at c indexLeft of
              Inl e \<Rightarrow> Inl e
            | Inr l \<Rightarrow>
                (case heap_at c indexRight of
                   Inl e \<Rightarrow> Inl e
                 | Inr r \<Rightarrow> Inr (if compare l r then indexRight else indexLeft)))
         else Inr indexLeft)"

text \<open>
  One invocation of \<open>percolateDown\<close> up to its recursive call: \<open>Inr None\<close> when it
  returns \<^verbatim>\<open>false\<close> with the container as it was, \<open>Inr (Some (indexBigger, c'))\<close> when
  it has swapped and goes on with \<^verbatim>\<open>percolateDown(indexBigger)\<close> on the container \<open>c'\<close>.
\<close>

definition percolateDown_step ::
  "('a \<Rightarrow> 'a \<Rightarrow> bool) \<Rightarrow> nat \<Rightarrow> 'a list \<Rightarrow> error + (nat \<times> 'a list) option" where
  "percolateDown_step compare indexHeap c =
     (case indexBigger_of compare indexHeap c of
        Inl e \<Rightarrow> Inl e
      | Inr indexBigger \<Rightarrow>
          if indexBigger \<le> length c then
            (case heap_at c indexHeap of
               Inl e \<Rightarrow> Inl e
             | Inr h \<Rightarrow>
                 (case heap_at c indexBigger of
                    Inl e \<Rightarrow> Inl e
                  | Inr b \<Rightarrow>
                      if compare h b
                      then Inr (Some (indexBigger, swap_at c (indexHeap - 1) (indexBigger - 1)))
                      else Inr None))
          else Inr None)"

lemma size_t_double:
  "i < 2 ^ 63 \<Longrightarrow> size_t (2 * i) = 2 * i \<and> size_t (2 * i + 1) = 2 * i + 1"
  by (simp add: size_t_def)

lemma size_t_double_top: "size_t (2 * 2 ^ 63) = 0"
  by (simp add: size_t_def)

lemma percolateDown_step_Some:
  assumes "percolateDown_step compare indexHeap c = Inr (Some (indexBigger, c'))"
  shows "1 \<le> indexHeap \<and> indexHeap < 2 ^ 63
         \<and> 2 * indexHeap \<le> indexBigger \<and> indexBigger \<le> 2 * indexHeap + 1
         \<and> indexBigger \<le> length c \<and> length c' = length c
         \<and> c' = swap_at c (indexHeap - 1) (indexBigger - 1)"
proof -
  from assms have h: "heap_at c indexHeap \<noteq> Inl OutOfBounds"
    and b: "heap_at c indexBigger \<noteq> Inl OutOfBounds"
    by (auto simp: percolateDown_step_def split: sum.splits if_splits error.splits)
  from h have i: "1 \<le> indexHeap" "indexHeap \<le> 2 ^ 63"
    by (auto simp: heap_at_def at_def split: if_splits)
  from b have b1: "1 \<le> indexBigger"
    by (auto simp: heap_at_def split: if_splits)
  have lt: "indexHeap < 2 ^ 63"
  proof (rule ccontr)
    assume "\<not> indexHeap < 2 ^ 63"
    with i have top: "indexHeap = 2 ^ 63"
      by simp
    from assms b1 show False
      unfolding percolateDown_step_def indexBigger_of_def top size_t_double_top
      by (auto simp: Let_def heap_at_def size_t_def split: sum.splits if_splits)
  qed
  from assms size_t_double [OF lt] i lt show ?thesis
    by (auto simp: percolateDown_step_def indexBigger_of_def Let_def swap_at_def
             split: sum.splits if_splits)
qed

function percolateDown ::
  "('a \<Rightarrow> 'a \<Rightarrow> bool) \<Rightarrow> nat \<Rightarrow> 'a list \<Rightarrow> error + (bool \<times> 'a list)" where
  "percolateDown compare indexHeap c =
     (case percolateDown_step compare indexHeap c of
        Inl e \<Rightarrow> Inl e
      | Inr None \<Rightarrow> Inr (False, c)
      | Inr (Some (indexBigger, c')) \<Rightarrow>
          (case percolateDown compare indexBigger c' of
             Inl e \<Rightarrow> Inl e
           | Inr (_, c'') \<Rightarrow> Inr (True, c'')))"
  by pat_completeness auto
termination percolateDown
proof (relation "measure (\<lambda>(compare, indexHeap, c). length c - indexHeap)")
  show "wf (measure (\<lambda>(compare :: 'a \<Rightarrow> 'a \<Rightarrow> bool, indexHeap, c). length c - indexHeap))"
    by simp
next
  fix compare :: "'a \<Rightarrow> 'a \<Rightarrow> bool" and indexHeap c x2 x2a x y
  assume "percolateDown_step compare indexHeap c = Inr x2" "x2 = Some x2a" "(x, y) = x2a"
  then have "percolateDown_step compare indexHeap c = Inr (Some (x, y))"
    by simp
  from percolateDown_step_Some [OF this]
  show "((compare, x, y), compare, indexHeap, c)
        \<in> measure (\<lambda>(compare, indexHeap, c). length c - indexHeap)"
    by auto
qed

declare percolateDown.simps [simp del]

text \<open>
  The number of nested recursive calls \<open>percolateDown(indexHeap)\<close> makes: the same
  recursion over the same step, counting the calls.
\<close>

function percolateDown_depth :: "('a \<Rightarrow> 'a \<Rightarrow> bool) \<Rightarrow> nat \<Rightarrow> 'a list \<Rightarrow> nat" where
  "percolateDown_depth compare indexHeap c =
     (case percolateDown_step compare indexHeap c of
        Inl e \<Rightarrow> 0
      | Inr None \<Rightarrow> 0
      | Inr (Some (indexBigger, c')) \<Rightarrow> Suc (percolateDown_depth compare indexBigger c'))"
  by pat_completeness auto
termination percolateDown_depth
proof (relation "measure (\<lambda>(compare, indexHeap, c). length c - indexHeap)")
  show "wf (measure (\<lambda>(compare :: 'a \<Rightarrow> 'a \<Rightarrow> bool, indexHeap, c). length c - indexHeap))"
    by simp
next
  fix compare :: "'a \<Rightarrow> 'a \<Rightarrow> bool" and indexHeap c x2 x2a x y
  assume "percolateDown_step compare indexHeap c = Inr x2" "x2 = Some x2a" "(x, y) = x2a"
  then have "percolateDown_step compare indexHeap c = Inr (Some (x, y))"
    by simp
  from percolateDown_step_Some [OF this]
  show "((compare, x, y), compare, indexHeap, c)
        \<in> measure (\<lambda>(compare, indexHeap, c). length c - indexHeap)"
    by auto
qed

declare percolateDown_depth.simps [simp del]

subsection \<open>heapify\<close>

text \<open>
  \<^verbatim>\<open>for (int i = container.size() / 2; i >= 0; i--) percolateDown(i + 1);\<close>
  The loop variable is an \<^verbatim>\<open>int\<close>: it starts at the low 32 bits of \<open>size / 2\<close>, the loop
  runs while it is not negative, and \<^verbatim>\<open>i + 1\<close> is an \<^verbatim>\<open>int\<close> addition, undefined at
  \<^verbatim>\<open>INT_MAX\<close>, whose result becomes the \<^verbatim>\<open>size_t\<close> argument.
\<close>

function heapify_loop :: "('a \<Rightarrow> 'a \<Rightarrow> bool) \<Rightarrow> int \<Rightarrow> 'a list \<Rightarrow> error + 'a list" where
  "heapify_loop compare i c =
     (if i \<ge> 0 then
        (if i = INT_MAX then Inl IntOverflow
         else
           (case percolateDown compare (nat (i + 1)) c of
              Inl e \<Rightarrow> Inl e
            | Inr (_, c') \<Rightarrow> heapify_loop compare (i - 1) c'))
      else Inr c)"
  by pat_completeness auto
termination heapify_loop
  by (relation "measure (\<lambda>(compare, i, c). nat (i + 1))") auto

declare heapify_loop.simps [simp del]

definition heapify :: "('a \<Rightarrow> 'a \<Rightarrow> bool) \<Rightarrow> 'a list \<Rightarrow> error + 'a list" where
  "heapify compare c = heapify_loop compare (to_int (length c div 2)) c"

subsection \<open>push\<close>

text \<open>
  \<^verbatim>\<open>while (i > 0 && percolateDown(i)) i /= 2;\<close>
\<close>

function push_loop :: "('a \<Rightarrow> 'a \<Rightarrow> bool) \<Rightarrow> nat \<Rightarrow> 'a list \<Rightarrow> error + 'a list" where
  "push_loop compare i c =
     (if i > 0 then
        (case percolateDown compare i c of
           Inl e \<Rightarrow> Inl e
         | Inr (changed, c') \<Rightarrow> if changed then push_loop compare (i div 2) c' else Inr c')
      else Inr c)"
  by pat_completeness auto
termination push_loop
  by (relation "measure (\<lambda>(compare, i, c). i)") auto

declare push_loop.simps [simp del]

text \<open>
  The heap index the loop of \<open>push\<close> starts at, \<^verbatim>\<open>(container.size() + 1) / 2\<close>, read
  after the \<^verbatim>\<open>push_back\<close>. The sum does not wrap: no container has \<^verbatim>\<open>SIZE_MAX\<close>
  elements.
\<close>

definition push_start :: "'a list \<Rightarrow> nat" where
  "push_start c = (length c + 1) div 2"

text \<open>
  The two overloads, \<^verbatim>\<open>push(const T&)\<close> and \<^verbatim>\<open>push(T&&)\<close>, differ in how the
  element reaches \<^verbatim>\<open>push_back\<close> and in nothing else.
\<close>

definition push :: "('a \<Rightarrow> 'a \<Rightarrow> bool) \<Rightarrow> 'a \<Rightarrow> 'a list \<Rightarrow> error + 'a list" where
  "push compare t c =
     (let c1 = push_back t c;
          i = push_start c1
      in push_loop compare i c1)"

subsection \<open>pop\<close>

text \<open>
  The \<^verbatim>\<open>if (!empty())\<close> of \<open>pop\<close> guards the \<^verbatim>\<open>swap\<close> alone: the \<^verbatim>\<open>pop_back\<close> and
  the \<^verbatim>\<open>percolateDown(1)\<close> after it are not in its scope.
\<close>

definition pop :: "('a \<Rightarrow> 'a \<Rightarrow> bool) \<Rightarrow> 'a list \<Rightarrow> error + 'a list" where
  "pop compare c =
     (let c1 = (if \<not> empty c then swap_at c 0 (length c - 1) else c)
      in case pop_back c1 of
           Inl e \<Rightarrow> Inl e
         | Inr c2 \<Rightarrow>
             (case percolateDown compare 1 c2 of
                Inl e \<Rightarrow> Inl e
              | Inr (_, c3) \<Rightarrow> Inr c3))"

section \<open>The priority queue of \<^verbatim>\<open>src/priority_queue.h\<close>\<close>

text \<open>
  This variant compares with the element type's \<^verbatim>\<open>operator<\<close>, not with \<^verbatim>\<open>compare\<close>,
  tests both child indices before it reads, and its \<open>heapify\<close> passes the loop
  variable itself to \<open>percolateDown\<close>.
\<close>

definition percolateDown_step_h :: "nat \<Rightarrow> ('a :: ord) list \<Rightarrow> error + (nat \<times> 'a list) option" where
  "percolateDown_step_h indexHeap c =
     (let indexLeft = size_t (indexHeap * 2);
          indexRight = size_t (indexLeft + 1)
      in if indexRight \<le> length c \<and> indexLeft \<le> length c then
           (case (if indexRight \<le> length c then
                    (case heap_at c indexLeft of
                       Inl e \<Rightarrow> Inl e
                     | Inr l \<Rightarrow>
                         (case heap_at c indexRight of
                            Inl e \<Rightarrow> Inl e
                          | Inr r \<Rightarrow> Inr (if l < r then indexRight else indexLeft)))
                  else Inr indexLeft) of
              Inl e \<Rightarrow> Inl e
            | Inr indexBigger \<Rightarrow>
                (case heap_at c indexHeap of
                   Inl e \<Rightarrow> Inl e
                 | Inr h \<Rightarrow>
                     (case heap_at c indexBigger of
                        Inl e \<Rightarrow> Inl e
                      | Inr b \<Rightarrow>
                          if h < b
                          then Inr (Some (indexBigger, swap_at c (indexHeap - 1) (indexBigger - 1)))
                          else Inr None)))
         else Inr None)"

lemma percolateDown_step_h_Some:
  assumes "percolateDown_step_h indexHeap c = Inr (Some (indexBigger, c'))"
  shows "1 \<le> indexHeap \<and> indexHeap < 2 ^ 63
         \<and> 2 * indexHeap \<le> indexBigger \<and> indexBigger \<le> 2 * indexHeap + 1
         \<and> indexBigger \<le> length c \<and> length c' = length c"
proof -
  from assms have h: "heap_at c indexHeap \<noteq> Inl OutOfBounds"
    and b: "heap_at c indexBigger \<noteq> Inl OutOfBounds"
    by (auto simp: percolateDown_step_h_def Let_def split: sum.splits if_splits error.splits)
  from h have i: "1 \<le> indexHeap" "indexHeap \<le> 2 ^ 63"
    by (auto simp: heap_at_def at_def split: if_splits)
  from b have b1: "1 \<le> indexBigger"
    by (auto simp: heap_at_def split: if_splits)
  have lt: "indexHeap < 2 ^ 63"
  proof (rule ccontr)
    assume "\<not> indexHeap < 2 ^ 63"
    with i have top: "indexHeap = 2 ^ 63"
      by simp
    have "size_t (2 ^ 63 * 2) = 0"
      by (simp add: size_t_def)
    with assms b1 show False
      unfolding percolateDown_step_h_def top
      by (auto simp: Let_def heap_at_def size_t_def split: sum.splits if_splits)
  qed
  from size_t_double [OF lt] have "size_t (indexHeap * 2) = 2 * indexHeap"
    "size_t (2 * indexHeap + 1) = 2 * indexHeap + 1"
    by (simp_all add: mult.commute)
  with assms i lt show ?thesis
    by (auto simp: percolateDown_step_h_def Let_def swap_at_def
             split: sum.splits if_splits)
qed

function percolateDown_h :: "nat \<Rightarrow> ('a :: ord) list \<Rightarrow> error + (bool \<times> 'a list)" where
  "percolateDown_h indexHeap c =
     (case percolateDown_step_h indexHeap c of
        Inl e \<Rightarrow> Inl e
      | Inr None \<Rightarrow> Inr (False, c)
      | Inr (Some (indexBigger, c')) \<Rightarrow>
          (case percolateDown_h indexBigger c' of
             Inl e \<Rightarrow> Inl e
           | Inr (_, c'') \<Rightarrow> Inr (True, c'')))"
  by pat_completeness auto
termination percolateDown_h
proof (relation "measure (\<lambda>(indexHeap, c). length c - indexHeap)")
  show "wf (measure (\<lambda>(indexHeap, c :: 'a list). length c - indexHeap))"
    by simp
next
  fix indexHeap and c :: "'a list" and x2 x2a x y
  assume "percolateDown_step_h indexHeap c = Inr x2" "x2 = Some x2a" "(x, y) = x2a"
  then have "percolateDown_step_h indexHeap c = Inr (Some (x, y))"
    by simp
  from percolateDown_step_h_Some [OF this]
  show "((x, y), indexHeap, c) \<in> measure (\<lambda>(indexHeap, c). length c - indexHeap)"
    by auto
qed

declare percolateDown_h.simps [simp del]

function percolateDown_depth_h :: "nat \<Rightarrow> ('a :: ord) list \<Rightarrow> nat" where
  "percolateDown_depth_h indexHeap c =
     (case percolateDown_step_h indexHeap c of
        Inl e \<Rightarrow> 0
      | Inr None \<Rightarrow> 0
      | Inr (Some (indexBigger, c')) \<Rightarrow> Suc (percolateDown_depth_h indexBigger c'))"
  by pat_completeness auto
termination percolateDown_depth_h
proof (relation "measure (\<lambda>(indexHeap, c). length c - indexHeap)")
  show "wf (measure (\<lambda>(indexHeap, c :: 'a list). length c - indexHeap))"
    by simp
next
  fix indexHeap and c :: "'a list" and x2 x2a x y
  assume "percolateDown_step_h indexHeap c = Inr x2" "x2 = Some x2a" "(x, y) = x2a"
  then have "percolateDown_step_h indexHeap c = Inr (Some (x, y))"
    by simp
  from percolateDown_step_h_Some [OF this]
  show "((x, y), indexHeap, c) \<in> measure (\<lambda>(indexHeap, c). length c - indexHeap)"
    by auto
qed

declare percolateDown_depth_h.simps [simp del]

text \<open>
  \<^verbatim>\<open>for (int i = container.size() / 2; i >= 0; i--) percolateDown(i);\<close>
  The \<^verbatim>\<open>int\<close> is not negative where it becomes the \<^verbatim>\<open>size_t\<close> argument.
\<close>

function heapify_loop_h :: "int \<Rightarrow> ('a :: ord) list \<Rightarrow> error + 'a list" where
  "heapify_loop_h i c =
     (if i \<ge> 0 then
        (case percolateDown_h (nat i) c of
           Inl e \<Rightarrow> Inl e
         | Inr (_, c') \<Rightarrow> heapify_loop_h (i - 1) c')
      else Inr c)"
  by pat_completeness auto
termination heapify_loop_h
  by (relation "measure (\<lambda>(i, c). nat (i + 1))") auto

declare heapify_loop_h.simps [simp del]

definition heapify_h :: "('a :: ord) list \<Rightarrow> error + 'a list" where
  "heapify_h c = heapify_loop_h (to_int (length c div 2)) c"

text \<open>
  The \<open>pop\<close> of this variant: its body is a comment, so it returns with the container
  as it was.
\<close>

definition pop_h :: "'a list \<Rightarrow> 'a list" where
  "pop_h c = c"

section \<open>The heap invariant\<close>

text \<open>
  The invariant of the spec's data model: for every valid 1-based heap index \<open>i\<close> and
  each child \<open>2 * i\<close>, \<open>2 * i + 1\<close> inside the storage, \<open>compare\<close> of the element at \<open>i\<close>
  and the child is false. Heap index \<open>i\<close> is storage offset \<open>i - 1\<close>.
\<close>

definition is_heap :: "('a \<Rightarrow> 'a \<Rightarrow> bool) \<Rightarrow> 'a list \<Rightarrow> bool" where
  "is_heap compare c =
     (\<forall>i \<in> {1..length c}.
        (2 * i \<le> length c \<longrightarrow> \<not> compare (c ! (i - 1)) (c ! (2 * i - 1))) \<and>
        (2 * i + 1 \<le> length c \<longrightarrow> \<not> compare (c ! (i - 1)) (c ! (2 * i))))"

text \<open>
  What C++ requires of a \<^verbatim>\<open>Compare\<close>: a strict weak ordering, here as asymmetry and
  negative transitivity. \<^verbatim>\<open>std::less\<close> on a linear order is one.
\<close>

definition strict_weak_order :: "('a \<Rightarrow> 'a \<Rightarrow> bool) \<Rightarrow> bool" where
  "strict_weak_order compare =
     ((\<forall>a b. compare a b \<longrightarrow> \<not> compare b a) \<and>
      (\<forall>a b c. \<not> compare a b \<and> \<not> compare b c \<longrightarrow> \<not> compare a c))"

definition asymmetric :: "('a \<Rightarrow> 'a \<Rightarrow> bool) \<Rightarrow> bool" where
  "asymmetric compare = (\<forall>a b. compare a b \<longrightarrow> \<not> compare b a)"

section \<open>Comparators that are no strict weak ordering\<close>

text \<open>
  \<^verbatim>\<open>std::less<double>\<close> on the values \<open>None\<close>, a NaN, and \<open>Some n\<close>, the number \<open>n\<close>:
  every comparison with a NaN is false. It is asymmetric and transitive, and not
  negatively transitive.
\<close>

definition nan_less :: "nat option \<Rightarrow> nat option \<Rightarrow> bool" where
  "nan_less a b = (case (a, b) of (Some x, Some y) \<Rightarrow> x < y | _ \<Rightarrow> False)"

text \<open>
  A comparator on records \<open>(key, tag)\<close> that compares the keys with \<^verbatim>\<open><=\<close>, as
  \<^verbatim>\<open>std::less_equal\<close> does. It is not asymmetric.
\<close>

definition key_le :: "nat \<times> nat \<Rightarrow> nat \<times> nat \<Rightarrow> bool" where
  "key_le a b = (fst a \<le> fst b)"

section \<open>Definitions for the statements\<close>

text \<open>
  The larger-child candidate in the spec's words: when the right child \<open>2 * i + 1\<close>
  exists, the right child if \<open>compare left right\<close> holds and the left child
  otherwise (so a tie selects the left child); when it does not exist, the left child
  \<open>2 * i\<close>.
\<close>

definition larger_child :: "('a \<Rightarrow> 'a \<Rightarrow> bool) \<Rightarrow> nat \<Rightarrow> 'a list \<Rightarrow> nat" where
  "larger_child compare i c =
     (if 2 * i + 1 \<le> length c \<and> compare (c ! (2 * i - 1)) (c ! (2 * i)) then 2 * i + 1 else 2 * i)"

text \<open>
  The heapify of the spec's words: the downward-restoration step at every heap index
  from \<open>i\<close> down to 1.
\<close>

fun heapify_spec :: "('a \<Rightarrow> 'a \<Rightarrow> bool) \<Rightarrow> nat \<Rightarrow> 'a list \<Rightarrow> error + 'a list" where
  "heapify_spec compare 0 c = Inr c"
| "heapify_spec compare (Suc i) c =
     (case percolateDown compare (Suc i) c of
        Inl e \<Rightarrow> Inl e
      | Inr (_, c') \<Rightarrow> heapify_spec compare i c')"

text \<open>
  A partial heap, the invariant of the proofs: every node \<open>k\<close> whose parent \<open>k div 2\<close>
  is at least \<open>m\<close> and is not \<open>x\<close> is in order with its parent.
\<close>

definition heap_from :: "('a \<Rightarrow> 'a \<Rightarrow> bool) \<Rightarrow> 'a list \<Rightarrow> nat \<Rightarrow> nat \<Rightarrow> bool" where
  "heap_from compare c m x =
     (\<forall>k. 2 \<le> k \<and> k \<le> length c \<and> m \<le> k div 2 \<and> k div 2 \<noteq> x
          \<longrightarrow> \<not> compare (c ! (k div 2 - 1)) (c ! (k - 1)))"

text \<open>
  A node at rest, the invariant of the idempotence proof: \<open>percolateDown\<close> at \<open>j\<close>
  would not swap.
\<close>

definition stays :: "('a \<Rightarrow> 'a \<Rightarrow> bool) \<Rightarrow> 'a list \<Rightarrow> nat \<Rightarrow> bool" where
  "stays compare c j =
     (\<not> (larger_child compare j c \<le> length c \<and>
         compare (c ! (j - 1)) (c ! (larger_child compare j c - 1))))"

section \<open>Lemmas\<close>

subsection \<open>One step of percolateDown\<close>

lemma at_in: "k < length c \<Longrightarrow> length c < 2 ^ 63 \<Longrightarrow> at c k = Inr (c ! k)"
  by (simp add: at_def)

lemma heap_at_in:
  "1 \<le> k \<Longrightarrow> k \<le> length c \<Longrightarrow> length c < 2 ^ 63 \<Longrightarrow> heap_at c k = Inr (c ! (k - 1))"
  by (simp add: heap_at_def at_in)

lemma indexBigger_of_eq:
  assumes "1 \<le> i" "i < 2 ^ 63" "length c < 2 ^ 63"
  shows "indexBigger_of compare i c = Inr (larger_child compare i c)"
proof -
  from size_t_double [OF assms(2)]
  have w: "size_t (2 * i) = 2 * i" "size_t (Suc (2 * i)) = Suc (2 * i)"
    by simp_all
  show ?thesis
  proof (cases "2 * i + 1 \<le> length c")
    case True
    with assms have "heap_at c (2 * i) = Inr (c ! (2 * i - 1))"
      "heap_at c (2 * i + 1) = Inr (c ! (2 * i))"
      by (simp_all add: heap_at_in)
    with True show ?thesis
      by (simp add: indexBigger_of_def larger_child_def w Let_def)
  next
    case False
    then show ?thesis
      by (simp add: indexBigger_of_def larger_child_def w Let_def)
  qed
qed

lemma larger_child_cases:
  "larger_child compare i c = 2 * i \<or> larger_child compare i c = 2 * i + 1"
  by (simp add: larger_child_def)

lemma percolateDown_step_eq:
  assumes "1 \<le> i" "i < 2 ^ 63" "length c < 2 ^ 63"
  shows "percolateDown_step compare i c =
     (if larger_child compare i c \<le> length c \<and> compare (c ! (i - 1)) (c ! (larger_child compare i c - 1))
      then Inr (Some (larger_child compare i c, swap_at c (i - 1) (larger_child compare i c - 1)))
      else Inr None)"
proof (cases "larger_child compare i c \<le> length c")
  case False
  then show ?thesis
    by (simp add: percolateDown_step_def indexBigger_of_eq [OF assms])
next
  case True
  have "2 * i \<le> larger_child compare i c"
    using larger_child_cases [of compare i c] by auto
  with True assms have "heap_at c i = Inr (c ! (i - 1))"
    "heap_at c (larger_child compare i c) = Inr (c ! (larger_child compare i c - 1))"
    by (simp_all add: heap_at_in)
  with True show ?thesis
    by (simp add: percolateDown_step_def indexBigger_of_eq [OF assms])
qed

lemma is_heap_heap_from: "is_heap compare c = heap_from compare c 1 0"
proof
  assume h: "is_heap compare c"
  show "heap_from compare c 1 0"
    unfolding heap_from_def
  proof (intro allI impI)
    fix k
    assume k: "2 \<le> k \<and> k \<le> length c \<and> 1 \<le> k div 2 \<and> k div 2 \<noteq> 0"
    define i where "i = k div 2"
    from k have in_range: "i \<in> {1..length c}"
      by (auto simp: i_def)
    with h have hi:
      "(2 * i \<le> length c \<longrightarrow> \<not> compare (c ! (i - 1)) (c ! (2 * i - 1))) \<and>
       (2 * i + 1 \<le> length c \<longrightarrow> \<not> compare (c ! (i - 1)) (c ! (2 * i)))"
      unfolding is_heap_def by blast
    have "k = 2 * i \<or> k = 2 * i + 1"
      unfolding i_def by arith
    with hi k have "\<not> compare (c ! (i - 1)) (c ! (k - 1))"
      by auto
    then show "\<not> compare (c ! (k div 2 - 1)) (c ! (k - 1))"
      by (simp add: i_def)
  qed
next
  assume h: "heap_from compare c 1 0"
  show "is_heap compare c"
    unfolding is_heap_def
  proof (intro ballI conjI impI)
    fix i
    assume i: "i \<in> {1..length c}" and b: "2 * i \<le> length c"
    from h have "2 \<le> 2 * i \<and> 2 * i \<le> length c \<and> 1 \<le> (2 * i) div 2 \<and> (2 * i) div 2 \<noteq> 0
          \<longrightarrow> \<not> compare (c ! ((2 * i) div 2 - 1)) (c ! (2 * i - 1))"
      unfolding heap_from_def by blast
    with i b show "\<not> compare (c ! (i - 1)) (c ! (2 * i - 1))"
      by simp
  next
    fix i
    assume i: "i \<in> {1..length c}" and b: "2 * i + 1 \<le> length c"
    from h have "2 \<le> 2 * i + 1 \<and> 2 * i + 1 \<le> length c \<and> 1 \<le> (2 * i + 1) div 2 \<and> (2 * i + 1) div 2 \<noteq> 0
          \<longrightarrow> \<not> compare (c ! ((2 * i + 1) div 2 - 1)) (c ! (2 * i + 1 - 1))"
      unfolding heap_from_def by blast
    with i b show "\<not> compare (c ! (i - 1)) (c ! (2 * i))"
      by simp
  qed
qed

lemma is_heap_list:
  "is_heap compare c =
     list_all (\<lambda>i. (2 * i \<le> length c \<longrightarrow> \<not> compare (c ! (i - 1)) (c ! (2 * i - 1))) \<and>
        (2 * i + 1 \<le> length c \<longrightarrow> \<not> compare (c ! (i - 1)) (c ! (2 * i)))) [1..<Suc (length c)]"
  unfolding is_heap_def list_all_iff by (simp add: atLeastAtMost_upt)

lemmas percolateDown_eval =
  percolateDown.simps percolateDown_step_def indexBigger_of_def heap_at_def at_def swap_at_def
  size_t_def Let_def

subsection \<open>The comparator\<close>

lemma swo_asym: "strict_weak_order compare \<Longrightarrow> compare a b \<Longrightarrow> \<not> compare b a"
  unfolding strict_weak_order_def by blast

lemma swo_negtrans:
  "strict_weak_order compare \<Longrightarrow> \<not> compare a b \<Longrightarrow> \<not> compare b c \<Longrightarrow> \<not> compare a c"
  unfolding strict_weak_order_def by blast

lemma swo_trans:
  "strict_weak_order compare \<Longrightarrow> compare a b \<Longrightarrow> compare b c \<Longrightarrow> compare a c"
  unfolding strict_weak_order_def by blast

text \<open>
  When \<open>percolateDown\<close> stops at \<open>i\<close>, the node at \<open>i\<close> is in order with both children.
\<close>

lemma no_swap_children_ok:
  assumes swo: "strict_weak_order compare"
    and i: "1 \<le> i"
    and stop: "\<not> (larger_child compare i c \<le> length c \<and>
                  compare (c ! (i - 1)) (c ! (larger_child compare i c - 1)))"
    and k: "k \<le> length c" "k div 2 = i"
  shows "\<not> compare (c ! (i - 1)) (c ! (k - 1))"
proof -
  from k have kk: "k = 2 * i \<or> k = 2 * i + 1"
    by arith
  show ?thesis
  proof (cases "2 * i + 1 \<le> length c \<and> compare (c ! (2 * i - 1)) (c ! (2 * i))")
    case True
    then have lc: "larger_child compare i c = 2 * i + 1"
      by (simp add: larger_child_def)
    with stop True have r: "\<not> compare (c ! (i - 1)) (c ! (2 * i))"
      by simp
    have l: "\<not> compare (c ! (i - 1)) (c ! (2 * i - 1))"
    proof
      assume "compare (c ! (i - 1)) (c ! (2 * i - 1))"
      with True swo have "compare (c ! (i - 1)) (c ! (2 * i))"
        using swo_trans by metis
      with r show False ..
    qed
    from kk l r show ?thesis by auto
  next
    case False
    then have lc: "larger_child compare i c = 2 * i"
      by (auto simp: larger_child_def)
    from kk k have "2 * i \<le> length c" by auto
    with stop lc have l: "\<not> compare (c ! (i - 1)) (c ! (2 * i - 1))"
      by simp
    show ?thesis
    proof (cases "k = 2 * i")
      case True
      with l show ?thesis by simp
    next
      case no: False
      with kk have k2: "k = 2 * i + 1" by simp
      with k False have "\<not> compare (c ! (2 * i - 1)) (c ! (2 * i))"
        by simp
      with l swo have "\<not> compare (c ! (i - 1)) (c ! (2 * i))"
        using swo_negtrans by metis
      with k2 show ?thesis by simp
    qed
  qed
qed

text \<open>
  After the swap the bigger child stands at \<open>i\<close>, in order with both children of \<open>i\<close>.
\<close>

lemma swap_children_ok:
  assumes swo: "strict_weak_order compare"
    and i: "1 \<le> i"
    and b: "b = larger_child compare i c" "b \<le> length c"
    and sw: "compare (c ! (i - 1)) (c ! (b - 1))"
    and k: "k \<le> length c" "k div 2 = i"
  shows "\<not> compare (c ! (b - 1)) (if k = b then c ! (i - 1) else c ! (k - 1))"
proof (cases "k = b")
  case True
  with sw swo show ?thesis
    using swo_asym by fastforce
next
  case False
  from k have kk: "k = 2 * i \<or> k = 2 * i + 1"
    by arith
  show ?thesis
  proof (cases "2 * i + 1 \<le> length c \<and> compare (c ! (2 * i - 1)) (c ! (2 * i))")
    case True
    then have "b = 2 * i + 1"
      by (simp add: larger_child_def b)
    with False kk True swo show ?thesis
      using swo_asym by fastforce
  next
    case no: False
    then have "b = 2 * i"
      by (auto simp: larger_child_def b)
    with False kk no k show ?thesis
      by auto
  qed
qed

subsection \<open>percolateDown restores a partial heap\<close>

lemma nth_swap_at:
  "a < length c \<Longrightarrow> b < length c \<Longrightarrow>
   swap_at c a b ! j = (if j = b then c ! a else if j = a then c ! b else c ! j)"
  by (auto simp: swap_at_def nth_list_update)

lemma length_swap_at: "length (swap_at c a b) = length c"
  by (simp add: swap_at_def)

lemma percolateDown_heap_from:
  "strict_weak_order compare \<Longrightarrow> 1 \<le> m \<Longrightarrow> m \<le> i \<Longrightarrow> heap_from compare c m i \<Longrightarrow>
   i < 2 ^ 63 \<Longrightarrow> length c < 2 ^ 63 \<Longrightarrow>
   (\<forall>k. k \<le> length c \<and> k div 2 = i \<and> m \<le> i div 2
        \<longrightarrow> \<not> compare (c ! (i div 2 - 1)) (c ! (k - 1))) \<Longrightarrow>
   \<exists>b c'. percolateDown compare i c = Inr (b, c') \<and> length c' = length c
           \<and> heap_from compare c' m 0"
proof (induction compare i c rule: percolateDown.induct)
  case (1 compare i c)
  note swo = \<open>strict_weak_order compare\<close>
  from "1.prems" have i: "1 \<le> i" by simp
  note bounds = \<open>i < 2 ^ 63\<close> \<open>length c < 2 ^ 63\<close>
  let ?b = "larger_child compare i c"
  show ?case
  proof (cases "?b \<le> length c \<and> compare (c ! (i - 1)) (c ! (?b - 1))")
    case False
    then have "percolateDown_step compare i c = Inr None"
      by (simp add: percolateDown_step_eq [OF i bounds])
    then have pd: "percolateDown compare i c = Inr (False, c)"
      by (simp add: percolateDown.simps)
    have "heap_from compare c m 0"
      unfolding heap_from_def
    proof (intro allI impI)
      fix k
      assume k: "2 \<le> k \<and> k \<le> length c \<and> m \<le> k div 2 \<and> k div 2 \<noteq> 0"
      show "\<not> compare (c ! (k div 2 - 1)) (c ! (k - 1))"
      proof (cases "k div 2 = i")
        case True
        with no_swap_children_ok [OF swo i False, of k] k show ?thesis
          by simp
      next
        case no: False
        with k \<open>heap_from compare c m i\<close> show ?thesis
          unfolding heap_from_def by blast
      qed
    qed
    with pd show ?thesis by auto
  next
    case True
    define b where "b = ?b"
    define c1 where "c1 = swap_at c (i - 1) (b - 1)"
    from True have b_le: "b \<le> length c" and sw: "compare (c ! (i - 1)) (c ! (b - 1))"
      by (simp_all add: b_def)
    have b_cases: "b = 2 * i \<or> b = 2 * i + 1"
      unfolding b_def by (rule larger_child_cases)
    with i have b_div: "b div 2 = i" and b_gt: "i < b"
      by auto
    from True have step: "percolateDown_step compare i c = Inr (Some (b, c1))"
      by (simp add: percolateDown_step_eq [OF i bounds] b_def c1_def)
    have len: "length c1 = length c"
      by (simp add: c1_def length_swap_at)
    have nth_c1: "c1 ! j = (if j = b - 1 then c ! (i - 1) else if j = i - 1 then c ! (b - 1) else c ! j)"
      for j
      unfolding c1_def using i b_le b_gt by (subst nth_swap_at) auto
    have hf: "heap_from compare c1 m b"
      unfolding heap_from_def
    proof (intro allI impI)
      fix k
      assume k: "2 \<le> k \<and> k \<le> length c1 \<and> m \<le> k div 2 \<and> k div 2 \<noteq> b"
      show "\<not> compare (c1 ! (k div 2 - 1)) (c1 ! (k - 1))"
      proof (cases "k div 2 = i")
        case True
        from k True len have "k \<le> length c" "k div 2 = i" by simp_all
        from swap_children_ok [OF swo i _ b_le sw this] b_def
        have ok: "\<not> compare (c ! (b - 1)) (if k = b then c ! (i - 1) else c ! (k - 1))"
          by simp
        from True i b_gt have parent: "c1 ! (k div 2 - 1) = c ! (b - 1)"
          by (simp add: nth_c1)
        from True i k have "k \<noteq> i" by auto
        with k b_gt i have child: "c1 ! (k - 1) = (if k = b then c ! (i - 1) else c ! (k - 1))"
          by (auto simp: nth_c1)
        from ok show ?thesis
          unfolding parent child .
      next
        case no: False
        with b_div have kb: "k \<noteq> b" by auto
        from k have p1: "1 \<le> k div 2" by auto
        from no k b_gt p1 i have parent: "c1 ! (k div 2 - 1) = c ! (k div 2 - 1)"
          by (auto simp: nth_c1)
        show ?thesis
        proof (cases "k = i")
          case True
          with k \<open>1 \<le> m\<close> have "b \<le> length c \<and> b div 2 = i \<and> m \<le> i div 2"
            using b_le b_div by simp
          with "1.prems"(7) have "\<not> compare (c ! (i div 2 - 1)) (c ! (b - 1))"
            by blast
          with True parent i b_gt show ?thesis
            by (auto simp: nth_c1)
        next
          case ki: False
          with kb k have "c1 ! (k - 1) = c ! (k - 1)"
            by (auto simp: nth_c1)
          moreover have "\<not> compare (c ! (k div 2 - 1)) (c ! (k - 1))"
          proof -
            from k no len
            have "2 \<le> k \<and> k \<le> length c \<and> m \<le> k div 2 \<and> k div 2 \<noteq> i"
              by auto
            with \<open>heap_from compare c m i\<close> show ?thesis
              unfolding heap_from_def by blast
          qed
          ultimately show ?thesis
            using parent by simp
        qed
      qed
    qed
    have grand: "\<forall>k. k \<le> length c1 \<and> k div 2 = b \<and> m \<le> b div 2
                  \<longrightarrow> \<not> compare (c1 ! (b div 2 - 1)) (c1 ! (k - 1))"
    proof (intro allI impI)
      fix k
      assume k: "k \<le> length c1 \<and> k div 2 = b \<and> m \<le> b div 2"
      with b_gt i have kgt: "b < k" "2 \<le> k" by auto
      with b_gt have "c1 ! (k - 1) = c ! (k - 1)"
        by (auto simp: nth_c1)
      moreover from b_div i b_gt have "c1 ! (b div 2 - 1) = c ! (b - 1)"
        by (auto simp: nth_c1)
      moreover have "\<not> compare (c ! (k div 2 - 1)) (c ! (k - 1))"
      proof -
        from k kgt len b_gt \<open>m \<le> i\<close>
        have "2 \<le> k \<and> k \<le> length c \<and> m \<le> k div 2 \<and> k div 2 \<noteq> i"
          by auto
        with \<open>heap_from compare c m i\<close> show ?thesis
          unfolding heap_from_def by blast
      qed
      ultimately show "\<not> compare (c1 ! (b div 2 - 1)) (c1 ! (k - 1))"
        using k by simp
    qed
    from b_gt \<open>m \<le> i\<close> have \<open>m \<le> b\<close> by simp
    from b_le bounds len have bb: "b < 2 ^ 63" "length c1 < 2 ^ 63"
      by simp_all
    from "1.IH" [OF step refl refl swo \<open>1 \<le> m\<close> \<open>m \<le> b\<close> hf bb grand]
    obtain b' c' where "percolateDown compare b c1 = Inr (b', c')" "length c' = length c1"
      "heap_from compare c' m 0"
      by blast
    with step len show ?thesis
      by (auto simp: percolateDown.simps)
  qed
qed

subsection \<open>No read outside the storage, no element lost\<close>

lemma mset_swap_at:
  "a < length c \<Longrightarrow> b < length c \<Longrightarrow> mset (swap_at c a b) = mset c"
  unfolding swap_at_def by (rule mset_swap)

lemma percolateDown_step_no_error:
  assumes "1 \<le> i" "i < 2 ^ 63" "length c < 2 ^ 63"
  shows "percolateDown_step compare i c \<noteq> Inl e"
  by (simp add: percolateDown_step_eq [OF assms])

lemma percolateDown_no_error:
  "1 \<le> i \<Longrightarrow> i < 2 ^ 63 \<Longrightarrow> length c < 2 ^ 63 \<Longrightarrow>
   \<exists>b c'. percolateDown compare i c = Inr (b, c') \<and> length c' = length c \<and> mset c' = mset c"
proof (induction compare i c rule: percolateDown.induct)
  case (1 compare i c)
  show ?case
  proof (cases "percolateDown_step compare i c")
    case (Inl e)
    with percolateDown_step_no_error [OF "1.prems"] show ?thesis
      by blast
  next
    case (Inr r)
    show ?thesis
    proof (cases r)
      case None
      with Inr show ?thesis
        by (auto simp: percolateDown.simps)
    next
      case (Some p)
      obtain j c1 where p: "p = (j, c1)"
        by (cases p)
      with Inr Some have step: "percolateDown_step compare i c = Inr (Some (j, c1))"
        by simp
      from percolateDown_step_Some [OF step] "1.prems"
      have j: "1 \<le> j" "j < 2 ^ 63" "length c1 < 2 ^ 63" "length c1 = length c"
        and c1: "c1 = swap_at c (i - 1) (j - 1)" and ij: "1 \<le> i" "i < j" "j \<le> length c"
        by auto
      from ij have "mset c1 = mset c"
        unfolding c1 by (intro mset_swap_at) auto
      with "1.IH" [OF Inr Some p [symmetric] j(1-3)] j(4) step show ?thesis
        by (auto simp: percolateDown.simps)
    qed
  qed
qed

lemma percolateDown_beyond:
  assumes "1 \<le> i" "i < 2 ^ 63" "length c < 2 ^ 63" "length c < 2 * i"
  shows "percolateDown compare i c = Inr (False, c)"
proof -
  from assms have "\<not> larger_child compare i c \<le> length c"
    by (simp add: larger_child_def)
  then have "percolateDown_step compare i c = Inr None"
    by (simp add: percolateDown_step_eq [OF assms(1-3)])
  then show ?thesis
    by (simp add: percolateDown.simps)
qed

subsection \<open>The loop of heapify\<close>

lemma to_int_small: "n < 2 ^ 31 \<Longrightarrow> to_int n = int n"
  by (simp add: to_int_def)

lemma heapify_loop_unfold:
  assumes "0 \<le> k" "k < INT_MAX"
  shows "heapify_loop compare k c =
     (case percolateDown compare (Suc (nat k)) c of
        Inl e \<Rightarrow> Inl e
      | Inr (_, c') \<Rightarrow> heapify_loop compare (k - 1) c')"
proof -
  from assms have "nat (k + 1) = Suc (nat k)"
    by simp
  with assms show ?thesis
    by (subst heapify_loop.simps) simp
qed

lemma heapify_loop_done: "k < 0 \<Longrightarrow> heapify_loop compare k c = Inr c"
  by (subst heapify_loop.simps) simp

lemma heapify_loop_nat:
  assumes "j < 2 ^ 31 - 1"
  shows "heapify_loop compare (int j) c =
     (case percolateDown compare (Suc j) c of
        Inl e \<Rightarrow> Inl e
      | Inr (_, c') \<Rightarrow> heapify_loop compare (int j - 1) c')"
proof -
  from assms have "int j < INT_MAX"
    by (simp add: INT_MAX_def)
  from heapify_loop_unfold [OF _ this, of compare c] show ?thesis
    by (simp only: nat_int of_nat_0_le_iff)
qed

lemma heapify_loop_spec:
  "j < 2 ^ 31 - 1 \<Longrightarrow> heapify_loop compare (int j) c = heapify_spec compare (Suc j) c"
proof (induction j arbitrary: c)
  case 0
  show ?case
  proof (cases "percolateDown compare (Suc 0) c")
    case (Inl e)
    with heapify_loop_nat [OF "0.prems", of compare c] show ?thesis
      by simp
  next
    case (Inr p)
    obtain b c1 where "p = (b, c1)"
      by (cases p)
    with Inr heapify_loop_nat [OF "0.prems", of compare c] show ?thesis
      by (simp add: heapify_loop_done)
  qed
next
  case (Suc j)
  then have ih: "heapify_loop compare (int j) c' = heapify_spec compare (Suc j) c'" for c'
    by simp
  have pred: "int (Suc j) - 1 = int j"
    by simp
  show ?case
  proof (cases "percolateDown compare (Suc (Suc j)) c")
    case (Inl e)
    with heapify_loop_nat [OF Suc.prems, of compare c] show ?thesis
      by simp
  next
    case (Inr p)
    obtain b c1 where "p = (b, c1)"
      by (cases p)
    with Inr heapify_loop_nat [OF Suc.prems, of compare c]
    have "heapify_loop compare (int (Suc j)) c = heapify_loop compare (int (Suc j) - 1) c1"
      and "heapify_spec compare (Suc (Suc j)) c = heapify_spec compare (Suc j) c1"
      by simp_all
    then show ?thesis
      by (simp only: pred ih)
  qed
qed

lemma heapify_eq_spec:
  assumes "length c < 2 ^ 32 - 2"
  shows "heapify compare c = heapify_spec compare (length c div 2) c"
proof -
  from assms have small: "length c div 2 < 2 ^ 31 - 1"
    by simp
  then have "to_int (length c div 2) = int (length c div 2)"
    by (simp add: to_int_small)
  with small have "heapify compare c = heapify_spec compare (Suc (length c div 2)) c"
    by (simp add: heapify_def heapify_loop_spec)
  moreover have "percolateDown compare (Suc (length c div 2)) c = Inr (False, c)"
  proof (rule percolateDown_beyond)
    show "length c < 2 * Suc (length c div 2)"
      by arith
    from assms show "Suc (length c div 2) < 2 ^ 63" "length c < 2 ^ 63"
      by simp_all
  qed simp
  ultimately show ?thesis
    by simp
qed

lemma heapify_spec_no_error:
  "j < 2 ^ 63 \<Longrightarrow> length c < 2 ^ 63 \<Longrightarrow>
   \<exists>c'. heapify_spec compare j c = Inr c' \<and> length c' = length c \<and> mset c' = mset c"
proof (induction j arbitrary: c)
  case 0
  show ?case by simp
next
  case (Suc j)
  from percolateDown_no_error [of "Suc j" c compare] Suc.prems
  obtain b c1 where pd: "percolateDown compare (Suc j) c = Inr (b, c1)" "length c1 = length c"
    "mset c1 = mset c"
    by auto
  from Suc.IH [of c1] Suc.prems pd show ?case
    by auto
qed

subsection \<open>heapify makes a heap\<close>

lemma heap_from_weaken:
  "heap_from compare c (Suc m) 0 \<Longrightarrow> heap_from compare c m m"
  unfolding heap_from_def by (auto simp: le_eq_less_or_eq)

lemma percolateDown_heap_from_top:
  assumes swo: "strict_weak_order compare" and i: "1 \<le> i"
    and h: "heap_from compare c (Suc i) 0"
    and bounds: "i < 2 ^ 63" "length c < 2 ^ 63"
  shows "\<exists>b c'. percolateDown compare i c = Inr (b, c') \<and> length c' = length c
           \<and> heap_from compare c' i 0"
proof (rule percolateDown_heap_from [OF swo i le_refl heap_from_weaken [OF h] bounds])
  from i show "\<forall>k. k \<le> length c \<and> k div 2 = i \<and> i \<le> i div 2
        \<longrightarrow> \<not> compare (c ! (i div 2 - 1)) (c ! (k - 1))"
    by auto
qed

lemma heapify_spec_heap:
  assumes swo: "strict_weak_order compare"
  shows "heap_from compare c (Suc j) 0 \<Longrightarrow> j < 2 ^ 63 \<Longrightarrow> length c < 2 ^ 63 \<Longrightarrow>
         \<exists>c'. heapify_spec compare j c = Inr c' \<and> heap_from compare c' 1 0"
proof (induction j arbitrary: c)
  case 0
  then show ?case by simp
next
  case (Suc j)
  from percolateDown_heap_from_top [OF swo _ Suc.prems(1)] Suc.prems
  obtain b c1 where pd: "percolateDown compare (Suc j) c = Inr (b, c1)"
    "length c1 = length c" "heap_from compare c1 (Suc j) 0"
    by auto
  from Suc.IH [OF pd(3)] Suc.prems pd show ?case
    by auto
qed

lemma heap_from_beyond: "length c div 2 < m \<Longrightarrow> heap_from compare c m 0"
  unfolding heap_from_def
proof (intro allI impI)
  fix k
  assume m: "length c div 2 < m" and k: "2 \<le> k \<and> k \<le> length c \<and> m \<le> k div 2 \<and> k div 2 \<noteq> 0"
  then have "k div 2 \<le> length c div 2"
    by (simp add: div_le_mono)
  with m k show "\<not> compare (c ! (k div 2 - 1)) (c ! (k - 1))"
    by simp
qed

lemma heapify_heap:
  assumes swo: "strict_weak_order compare" and len: "length c < 2 ^ 32 - 2"
  shows "\<exists>c'. heapify compare c = Inr c' \<and> length c' = length c \<and> mset c' = mset c
           \<and> is_heap compare c'"
proof -
  from len have b: "length c div 2 < 2 ^ 63" "length c < 2 ^ 63"
    by simp_all
  have "heap_from compare c (Suc (length c div 2)) 0"
    by (rule heap_from_beyond) simp
  from heapify_spec_heap [OF swo this b]
  obtain c' where h: "heapify_spec compare (length c div 2) c = Inr c'" "heap_from compare c' 1 0"
    by blast
  with heapify_spec_no_error [OF b, of compare] heapify_eq_spec [OF len, of compare]
  show ?thesis
    by (auto simp: is_heap_heap_from)
qed

lemma heapify_no_error:
  assumes "length c < 2 ^ 32 - 2"
  shows "\<exists>c'. heapify compare c = Inr c' \<and> length c' = length c \<and> mset c' = mset c"
proof -
  from assms have b: "length c div 2 < 2 ^ 63" "length c < 2 ^ 63"
    by simp_all
  from heapify_spec_no_error [OF b, of compare] heapify_eq_spec [OF assms, of compare]
  show ?thesis
    by simp
qed

subsection \<open>On a heap\<close>

lemma percolateDown_on_heap:
  assumes h: "is_heap compare c" and i: "1 \<le> i" "i < 2 ^ 63" "length c < 2 ^ 63"
  shows "percolateDown compare i c = Inr (False, c)"
proof -
  let ?b = "larger_child compare i c"
  have "\<not> (?b \<le> length c \<and> compare (c ! (i - 1)) (c ! (?b - 1)))"
  proof
    assume a: "?b \<le> length c \<and> compare (c ! (i - 1)) (c ! (?b - 1))"
    have bc: "?b = 2 * i \<or> ?b = 2 * i + 1"
      by (rule larger_child_cases)
    with a i have "i \<in> {1..length c}" by auto
    with h have "(2 * i \<le> length c \<longrightarrow> \<not> compare (c ! (i - 1)) (c ! (2 * i - 1))) \<and>
        (2 * i + 1 \<le> length c \<longrightarrow> \<not> compare (c ! (i - 1)) (c ! (2 * i)))"
      unfolding is_heap_def by blast
    with a bc show False by auto
  qed
  then have "percolateDown_step compare i c = Inr None"
    by (simp add: percolateDown_step_eq [OF i])
  then show ?thesis
    by (simp add: percolateDown.simps)
qed

subsection \<open>pop restores the heap\<close>

lemma butlast_swap_at_last:
  "c \<noteq> [] \<Longrightarrow> butlast (swap_at c 0 (length c - 1)) = take (length c - 1) (last c # tl c)"
proof (cases c rule: rev_cases)
  case Nil
  assume "c \<noteq> []"
  with Nil show ?thesis by simp
next
  case (snoc ys x)
  show ?thesis
  proof (cases ys)
    case Nil
    with snoc show ?thesis
      by (simp add: swap_at_def)
  next
    case (Cons y zs)
    with snoc show ?thesis
      by (simp add: swap_at_def list_update_append nth_append)
  qed
qed

lemma mset_butlast_swap_at:
  assumes "c \<noteq> []"
  shows "mset (butlast (swap_at c 0 (length c - 1))) + {#c ! 0#} = mset c"
proof -
  let ?s = "swap_at c 0 (length c - 1)"
  from assms have ne: "?s \<noteq> []"
    by (simp add: swap_at_def)
  have "last ?s = ?s ! (length c - 1)"
    using ne by (simp add: last_conv_nth length_swap_at)
  also from assms have "\<dots> = c ! 0"
    by (subst nth_swap_at) auto
  finally have "last ?s = c ! 0" .
  with append_butlast_last_id [OF ne] have "?s = butlast ?s @ [c ! 0]"
    by simp
  then have "mset ?s = mset (butlast ?s @ [c ! 0])"
    by simp
  then have "mset ?s = mset (butlast ?s) + {#c ! 0#}"
    by simp
  moreover from assms have "mset ?s = mset c"
    by (intro mset_swap_at) simp_all
  ultimately show ?thesis
    by simp
qed

lemma pop_heap:
  assumes swo: "strict_weak_order compare" and ne: "c \<noteq> []" and h: "is_heap compare c"
    and len: "length c < 2 ^ 63"
  shows "\<exists>b c'. pop compare c = Inr c'
            \<and> percolateDown compare 1 (butlast (swap_at c 0 (length c - 1))) = Inr (b, c')
            \<and> length c' = length c - 1 \<and> mset c' + {#c ! 0#} = mset c \<and> is_heap compare c'"
proof -
  define c2 where "c2 = butlast (swap_at c 0 (length c - 1))"
  have len2: "length c2 = length c - 1"
    by (simp add: c2_def length_swap_at)
  have nth2: "c2 ! j = c ! j" if "1 \<le> j" "j < length c - 1" for j
  proof -
    from that have "c2 ! j = swap_at c 0 (length c - 1) ! j"
      unfolding c2_def by (simp add: nth_butlast length_swap_at)
    also from that ne have "\<dots> = c ! j"
      by (subst nth_swap_at) auto
    finally show ?thesis .
  qed
  have hf: "heap_from compare c2 1 1"
    unfolding heap_from_def
  proof (intro allI impI)
    fix k
    assume k: "2 \<le> k \<and> k \<le> length c2 \<and> 1 \<le> k div 2 \<and> k div 2 \<noteq> 1"
    then have p: "2 \<le> k div 2" by auto
    with k len2 have "c2 ! (k div 2 - 1) = c ! (k div 2 - 1)" "c2 ! (k - 1) = c ! (k - 1)"
      by (auto intro!: nth2)
    moreover have "\<not> compare (c ! (k div 2 - 1)) (c ! (k - 1))"
    proof -
      from k len2 have "2 \<le> k \<and> k \<le> length c \<and> 1 \<le> k div 2 \<and> k div 2 \<noteq> 0"
        by auto
      with h show ?thesis
        unfolding is_heap_heap_from heap_from_def by blast
    qed
    ultimately show "\<not> compare (c2 ! (k div 2 - 1)) (c2 ! (k - 1))"
      by simp
  qed
  have grand: "\<forall>k. k \<le> length c2 \<and> k div 2 = 1 \<and> (1::nat) \<le> 1 div 2
        \<longrightarrow> \<not> compare (c2 ! (1 div 2 - 1)) (c2 ! (k - 1))"
    by simp
  from len len2 have b: "(1::nat) < 2 ^ 63" "length c2 < 2 ^ 63"
    by simp_all
  from percolateDown_heap_from [OF swo le_refl le_refl hf b grand]
  obtain b c' where pd: "percolateDown compare 1 c2 = Inr (b, c')" "length c' = length c2"
    "heap_from compare c' 1 0"
    by blast
  from percolateDown_no_error [OF le_refl b, of compare] pd(1)
  have ms: "mset c' = mset c2"
    by simp
  from ne have "swap_at c 0 (length c - 1) \<noteq> []"
    by (simp add: swap_at_def)
  with ne pd have "pop compare c = Inr c'"
    by (simp add: pop_def empty_def pop_back_def c2_def)
  with pd len2 ms mset_butlast_swap_at [OF ne] show ?thesis
    unfolding c2_def is_heap_heap_from by auto
qed

subsection \<open>The depth of the recursion\<close>

lemma percolateDown_depth_bound:
  "1 \<le> i \<Longrightarrow> i * 2 ^ percolateDown_depth compare i c \<le> max i (length c)"
proof (induction compare i c rule: percolateDown_depth.induct)
  case (1 compare i c)
  show ?case
  proof (cases "percolateDown_step compare i c")
    case (Inl e)
    then show ?thesis
      by (simp add: percolateDown_depth.simps)
  next
    case (Inr r)
    show ?thesis
    proof (cases r)
      case None
      with Inr show ?thesis
        by (simp add: percolateDown_depth.simps)
    next
      case (Some p)
      obtain j c' where p: "p = (j, c')"
        by (cases p)
      with Inr Some have step: "percolateDown_step compare i c = Inr (Some (j, c'))"
        by simp
      from percolateDown_step_Some [OF step]
      have j: "2 * i \<le> j" "j \<le> length c" "length c' = length c" "1 \<le> j"
        by auto
      define d where "d = percolateDown_depth compare j c'"
      from "1.IH" [OF Inr Some p [symmetric] j(4)] j
      have ih: "j * 2 ^ d \<le> length c"
        by (simp add: d_def)
      have "i * 2 ^ Suc d = (2 * i) * 2 ^ d"
        by simp
      also from j have "\<dots> \<le> j * 2 ^ d"
        by (intro mult_le_mono1)
      also note ih
      finally have "i * 2 ^ Suc d \<le> length c" .
      moreover from step have "percolateDown_depth compare i c = Suc d"
        by (simp add: percolateDown_depth.simps d_def)
      ultimately show ?thesis
        by (simp only: max.coboundedI2)
    qed
  qed
qed

subsection \<open>The loop of push\<close>

lemma push_loop_no_error:
  "i < 2 ^ 63 \<Longrightarrow> length c < 2 ^ 63 \<Longrightarrow>
   \<exists>c'. push_loop compare i c = Inr c' \<and> length c' = length c \<and> mset c' = mset c"
proof (induction compare i c rule: push_loop.induct)
  case (1 compare i c)
  show ?case
  proof (cases "i > 0")
    case False
    then show ?thesis
      by (simp add: push_loop.simps)
  next
    case True
    then have "1 \<le> i" by simp
    from percolateDown_no_error [OF this "1.prems", of compare]
    obtain b c1 where pd: "percolateDown compare i c = Inr (b, c1)" "length c1 = length c"
      "mset c1 = mset c"
      by auto
    show ?thesis
    proof (cases b)
      case False
      with True pd show ?thesis
        by (simp add: push_loop.simps)
    next
      case b: True
      from "1.prems" pd have "i div 2 < 2 ^ 63" "length c1 < 2 ^ 63"
        by simp_all
      from "1.IH" [OF True pd(1) refl b this] True pd b show ?thesis
        by (simp add: push_loop.simps)
    qed
  qed
qed

subsection \<open>The variant of \<^verbatim>\<open>src/priority_queue.h\<close>\<close>

lemma percolateDown_step_h_no_error:
  assumes "1 \<le> i" "i < 2 ^ 63" "length c < 2 ^ 63"
  shows "percolateDown_step_h i c \<noteq> Inl e"
proof -
  from size_t_double [OF assms(2)]
  have w: "size_t (i * 2) = 2 * i" "size_t (Suc (2 * i)) = Suc (2 * i)"
    by (simp_all add: mult.commute)
  show ?thesis
  proof (cases "Suc (2 * i) \<le> length c")
    case False
    then show ?thesis
      by (simp add: percolateDown_step_h_def w Let_def)
  next
    case True
    with assms have "heap_at c (2 * i) = Inr (c ! (2 * i - 1))"
      "heap_at c (Suc (2 * i)) = Inr (c ! (2 * i))" "heap_at c i = Inr (c ! (i - 1))"
      by (simp_all add: heap_at_in)
    with True show ?thesis
      by (simp add: percolateDown_step_h_def w Let_def)
  qed
qed

lemma percolateDown_h_no_error:
  "1 \<le> i \<Longrightarrow> i < 2 ^ 63 \<Longrightarrow> length c < 2 ^ 63 \<Longrightarrow>
   \<exists>b c'. percolateDown_h i c = Inr (b, c') \<and> length c' = length c"
proof (induction i c rule: percolateDown_h.induct)
  case (1 i c)
  show ?case
  proof (cases "percolateDown_step_h i c")
    case (Inl e)
    with percolateDown_step_h_no_error [OF "1.prems"] show ?thesis
      by blast
  next
    case (Inr r)
    show ?thesis
    proof (cases r)
      case None
      with Inr show ?thesis
        by (auto simp: percolateDown_h.simps)
    next
      case (Some p)
      obtain j c1 where p: "p = (j, c1)"
        by (cases p)
      with Inr Some have step: "percolateDown_step_h i c = Inr (Some (j, c1))"
        by simp
      from percolateDown_step_h_Some [OF step] "1.prems"
      have j: "1 \<le> j" "j < 2 ^ 63" "length c1 < 2 ^ 63" "length c1 = length c"
        by auto
      from "1.IH" [OF Inr Some p [symmetric] j(1-3)] j(4) step show ?thesis
        by (auto simp: percolateDown_h.simps)
    qed
  qed
qed

lemma percolateDown_depth_h_bound:
  "1 \<le> i \<Longrightarrow> i * 2 ^ percolateDown_depth_h i c \<le> max i (length c)"
proof (induction i c rule: percolateDown_depth_h.induct)
  case (1 i c)
  show ?case
  proof (cases "percolateDown_step_h i c")
    case (Inl e)
    then show ?thesis
      by (simp add: percolateDown_depth_h.simps)
  next
    case (Inr r)
    show ?thesis
    proof (cases r)
      case None
      with Inr show ?thesis
        by (simp add: percolateDown_depth_h.simps)
    next
      case (Some p)
      obtain j c' where p: "p = (j, c')"
        by (cases p)
      with Inr Some have step: "percolateDown_step_h i c = Inr (Some (j, c'))"
        by simp
      from percolateDown_step_h_Some [OF step]
      have j: "2 * i \<le> j" "j \<le> length c" "length c' = length c" "1 \<le> j"
        by auto
      define d where "d = percolateDown_depth_h j c'"
      from "1.IH" [OF Inr Some p [symmetric] j(4)] j
      have ih: "j * 2 ^ d \<le> length c"
        by (simp add: d_def)
      have "i * 2 ^ Suc d = (2 * i) * 2 ^ d"
        by simp
      also from j have "\<dots> \<le> j * 2 ^ d"
        by (intro mult_le_mono1)
      also note ih
      finally have "i * 2 ^ Suc d \<le> length c" .
      moreover from step have "percolateDown_depth_h i c = Suc d"
        by (simp add: percolateDown_depth_h.simps d_def)
      ultimately show ?thesis
        by (simp only: max.coboundedI2)
    qed
  qed
qed

lemma percolateDown_h_0: "c \<noteq> [] \<Longrightarrow> percolateDown_h 0 c = Inl OutOfBounds"
  by (cases c)
    (simp_all add: percolateDown_h.simps percolateDown_step_h_def heap_at_def size_t_def)

lemma heapify_loop_h_nat:
  "heapify_loop_h (int j) c =
     (case percolateDown_h j c of
        Inl e \<Rightarrow> Inl e
      | Inr (_, c') \<Rightarrow> heapify_loop_h (int j - 1) c')"
  by (subst heapify_loop_h.simps) simp

lemma heapify_loop_h_error:
  "c \<noteq> [] \<Longrightarrow> j < 2 ^ 63 \<Longrightarrow> length c < 2 ^ 63 \<Longrightarrow> heapify_loop_h (int j) c = Inl OutOfBounds"
proof (induction j arbitrary: c)
  case 0
  with heapify_loop_h_nat [of 0 c] show ?case
    by (simp add: percolateDown_h_0)
next
  case (Suc j)
  from percolateDown_h_no_error [of "Suc j" c] Suc.prems
  obtain b c1 where pd: "percolateDown_h (Suc j) c = Inr (b, c1)" "length c1 = length c"
    by auto
  with Suc.prems have "c1 \<noteq> []" "j < 2 ^ 63" "length c1 < 2 ^ 63"
    by auto
  from Suc.IH [OF this] have "heapify_loop_h (int (Suc j) - 1) c1 = Inl OutOfBounds"
    by simp
  with heapify_loop_h_nat [of "Suc j" c] pd show ?case
    by simp
qed

lemma heapify_h_error:
  assumes "c \<noteq> []" "length c < 2 ^ 32"
  shows "heapify_h c = Inl OutOfBounds"
proof -
  from assms(2) have small: "length c div 2 < 2 ^ 31"
    by simp
  then have t: "to_int (length c div 2) = int (length c div 2)"
    by (rule to_int_small)
  from small have "length c div 2 < 2 ^ 63"
    by (rule less_trans) simp
  moreover from assms(2) have "length c < 2 ^ 63"
    by (rule less_trans) simp
  ultimately have "heapify_loop_h (int (length c div 2)) c = Inl OutOfBounds"
    using assms(1) by (intro heapify_loop_h_error)
  then show ?thesis
    by (simp only: heapify_h_def t)
qed

subsection \<open>\<^verbatim>\<open>std::less\<close> on a linear order\<close>

lemma swo_linorder: "strict_weak_order ((<) :: 'a :: linorder \<Rightarrow> 'a \<Rightarrow> bool)"
  unfolding strict_weak_order_def
proof (intro conjI allI impI)
  fix a b :: 'a
  assume "a < b"
  then show "\<not> b < a"
    by (rule less_not_sym)
next
  fix a b c :: 'a
  assume "\<not> a < b \<and> \<not> b < c"
  then have "b \<le> a" "c \<le> b"
    by (simp_all add: not_less)
  then have "c \<le> a"
    by (rule order_trans [rotated])
  then show "\<not> a < c"
    by (simp add: not_less)
qed

lemma swo_asymmetric: "strict_weak_order compare \<Longrightarrow> asymmetric compare"
  unfolding strict_weak_order_def asymmetric_def by (rule conjunct1)

lemma asymmetric_linorder: "asymmetric ((<) :: 'a :: linorder \<Rightarrow> 'a \<Rightarrow> bool)"
  by (rule swo_asymmetric [OF swo_linorder])

subsection \<open>After heapify every node is at rest\<close>

lemma stays_cong:
  assumes "length c1 = length c" "c1 ! (j - 1) = c ! (j - 1)"
    "c1 ! (2 * j - 1) = c ! (2 * j - 1)" "c1 ! (2 * j) = c ! (2 * j)"
  shows "stays compare c1 j = stays compare c j"
  using assms by (auto simp: stays_def larger_child_def)

lemma larger_child_cong:
  assumes "length c1 = length c"
    "c1 ! (2 * j - 1) = c ! (2 * j - 1)" "c1 ! (2 * j) = c ! (2 * j)"
  shows "larger_child compare j c1 = larger_child compare j c"
  using assms by (auto simp: larger_child_def)

lemma percolateDown_stays:
  "asymmetric compare \<Longrightarrow> 1 \<le> m \<Longrightarrow> m \<le> i \<Longrightarrow> i < 2 ^ 63 \<Longrightarrow> length c < 2 ^ 63 \<Longrightarrow>
   (\<forall>a \<in> A. a < i) \<Longrightarrow> (m \<le> i div 2 \<longrightarrow> i div 2 \<in> A) \<Longrightarrow>
   (\<forall>j. m \<le> j \<and> j \<notin> A \<and> j \<noteq> i \<longrightarrow> stays compare c j) \<Longrightarrow>
   \<exists>b c'. percolateDown compare i c = Inr (b, c') \<and> length c' = length c
     \<and> (\<forall>j. m \<le> j \<and> j \<notin> A \<longrightarrow> stays compare c' j)
     \<and> (\<forall>k. 1 \<le> k \<and> k < 2 * i \<and> k \<noteq> i \<longrightarrow> c' ! (k - 1) = c ! (k - 1))
     \<and> (c' ! (i - 1) = c ! (i - 1) \<or>
         (larger_child compare i c \<le> length c \<and>
          c' ! (i - 1) = c ! (larger_child compare i c - 1)))"
proof (induction compare i c arbitrary: A rule: percolateDown.induct)
  case (1 compare i c)
  note asym = \<open>asymmetric compare\<close>
  from "1.prems" have i: "1 \<le> i" by simp
  note bounds = \<open>i < 2 ^ 63\<close> \<open>length c < 2 ^ 63\<close>
  note rest = \<open>\<forall>j. m \<le> j \<and> j \<notin> A \<and> j \<noteq> i \<longrightarrow> stays compare c j\<close>
  let ?b = "larger_child compare i c"
  show ?case
  proof (cases "?b \<le> length c \<and> compare (c ! (i - 1)) (c ! (?b - 1))")
    case False
    then have "percolateDown_step compare i c = Inr None"
      by (simp add: percolateDown_step_eq [OF i bounds])
    then have pd: "percolateDown compare i c = Inr (False, c)"
      by (simp add: percolateDown.simps)
    from False have "stays compare c i"
      by (simp add: stays_def)
    with rest have "\<forall>j. m \<le> j \<and> j \<notin> A \<longrightarrow> stays compare c j"
      by blast
    with pd show ?thesis
      by auto
  next
    case True
    define b where "b = ?b"
    define c1 where "c1 = swap_at c (i - 1) (b - 1)"
    define v where "v = c ! (b - 1)"
    define x where "x = c ! (i - 1)"
    from True have b_le: "b \<le> length c" and sw: "compare x v"
      by (simp_all add: b_def x_def v_def)
    have b_cases: "b = 2 * i \<or> b = 2 * i + 1"
      unfolding b_def by (rule larger_child_cases)
    with i have b_div: "b div 2 = i" and b_gt: "i < b"
      by auto
    from True have step: "percolateDown_step compare i c = Inr (Some (b, c1))"
      by (simp add: percolateDown_step_eq [OF i bounds] b_def c1_def)
    have len: "length c1 = length c"
      by (simp add: c1_def length_swap_at)
    have nth_c1: "c1 ! j = (if j = b - 1 then x else if j = i - 1 then v else c ! j)"
      for j
      unfolding c1_def x_def v_def using i b_le b_gt by (subst nth_swap_at) auto
    have same: "c1 ! (k - 1) = c ! (k - 1)" if "1 \<le> k" "k \<noteq> i" "k \<noteq> b" for k
      using that i b_gt by (auto simp: nth_c1)
    \<comment> \<open>the nodes other than \<open>i\<close> and \<open>b\<close> are at rest as before\<close>
    have rest1: "\<forall>j. m \<le> j \<and> j \<notin> insert i A \<and> j \<noteq> b \<longrightarrow> stays compare c1 j"
    proof (intro allI impI)
      fix j
      assume j: "m \<le> j \<and> j \<notin> insert i A \<and> j \<noteq> b"
      with \<open>1 \<le> m\<close> have j1: "1 \<le> j" "j \<noteq> i" "j \<noteq> b" "j \<notin> A"
        by auto
      have "2 * j \<noteq> i \<and> 2 * j + 1 \<noteq> i"
      proof (rule ccontr)
        assume "\<not> (2 * j \<noteq> i \<and> 2 * j + 1 \<noteq> i)"
        then have "i div 2 = j" by auto
        with j "1.prems"(7) show False by auto
      qed
      moreover have "2 * j \<noteq> b \<and> 2 * j + 1 \<noteq> b"
        using b_div j1 by auto
      ultimately have "c1 ! (2 * j - 1) = c ! (2 * j - 1)" "c1 ! (2 * j) = c ! (2 * j + 1 - 1)"
        using j1 same [of "2 * j"] same [of "2 * j + 1"] by auto
      with same [of j] j1 len have "stays compare c1 j = stays compare c j"
        by (intro stays_cong) auto
      with rest j1 j show "stays compare c1 j"
        by auto
    qed
    from b_le bounds len have bb: "b < 2 ^ 63" "length c1 < 2 ^ 63"
      by simp_all
    from b_gt \<open>m \<le> i\<close> have mb: "m \<le> b" by simp
    from "1.prems"(6) b_gt have A1: "\<forall>a \<in> insert i A. a < b"
      by auto
    from b_div have par1: "m \<le> b div 2 \<longrightarrow> b div 2 \<in> insert i A"
      by simp
    from "1.IH" [OF step refl refl asym \<open>1 \<le> m\<close> mb bb A1 par1 rest1]
    obtain b' c2 where pd2: "percolateDown compare b c1 = Inr (b', c2)"
      and len2: "length c2 = length c1"
      and rest2: "\<forall>j. m \<le> j \<and> j \<notin> insert i A \<longrightarrow> stays compare c2 j"
      and frame2: "\<forall>k. 1 \<le> k \<and> k < 2 * b \<and> k \<noteq> b \<longrightarrow> c2 ! (k - 1) = c1 ! (k - 1)"
      and val2: "c2 ! (b - 1) = c1 ! (b - 1) \<or>
         (larger_child compare b c1 \<le> length c1 \<and>
          c2 ! (b - 1) = c1 ! (larger_child compare b c1 - 1))"
      by blast
    from step pd2 have pd: "percolateDown compare i c = Inr (True, c2)"
      by (simp add: percolateDown.simps)
    \<comment> \<open>the value now at \<open>i\<close> is the old value at \<open>b\<close>\<close>
    from frame2 i b_gt have at_i: "c2 ! (i - 1) = v"
      by (auto simp: nth_c1)
    \<comment> \<open>whatever stands at \<open>b\<close> now does not outrank it\<close>
    have not_w: "\<not> compare v (c2 ! (b - 1))"
    proof -
      from val2 show ?thesis
      proof
        assume "c2 ! (b - 1) = c1 ! (b - 1)"
        then have "c2 ! (b - 1) = x"
          by (simp add: nth_c1)
        with sw asym show ?thesis
          by (auto simp: asymmetric_def)
      next
        assume a: "larger_child compare b c1 \<le> length c1 \<and>
          c2 ! (b - 1) = c1 ! (larger_child compare b c1 - 1)"
        from i b_gt have "c1 ! (2 * b - 1) = c ! (2 * b - 1)" "c1 ! (2 * b) = c ! (2 * b)"
          by (auto simp: nth_c1)
        with len have lc: "larger_child compare b c1 = larger_child compare b c"
          by (intro larger_child_cong)
        define l where "l = larger_child compare b c"
        have "l = 2 * b \<or> l = 2 * b + 1"
          unfolding l_def by (rule larger_child_cases)
        with i b_gt have "c1 ! (l - 1) = c ! (l - 1)"
          by (auto simp: nth_c1)
        with a lc len have w: "l \<le> length c" "c2 ! (b - 1) = c ! (l - 1)"
          by (simp_all add: l_def)
        from "1.prems"(6) b_gt mb have "m \<le> b \<and> b \<notin> A \<and> b \<noteq> i"
          by auto
        with rest have "stays compare c b"
          by blast
        with w show ?thesis
          by (simp add: stays_def l_def v_def)
      qed
    qed
    \<comment> \<open>so \<open>i\<close> is at rest\<close>
    have stay_i: "stays compare c2 i"
    proof -
      from b_cases show ?thesis
      proof
        assume left: "b = 2 * i"
        with True have chose: "\<not> (2 * i + 1 \<le> length c \<and> compare v (c ! (2 * i)))"
          by (auto simp: b_def v_def larger_child_def split: if_splits)
        have sib: "c2 ! (2 * i) = c ! (2 * i)"
        proof -
          from frame2 left i have "c2 ! (2 * i + 1 - 1) = c1 ! (2 * i + 1 - 1)"
            by (intro mp [OF spec [OF frame2]]) auto
          with left i show ?thesis
            by (auto simp: nth_c1)
        qed
        from left not_w have "\<not> compare v (c2 ! (2 * i - 1))"
          by simp
        with chose sib at_i len len2 show ?thesis
          by (auto simp: stays_def larger_child_def)
      next
        assume right: "b = 2 * i + 1"
        with True have chose: "compare (c ! (2 * i - 1)) v"
          by (auto simp: b_def v_def larger_child_def split: if_splits)
        have sib: "c2 ! (2 * i - 1) = c ! (2 * i - 1)"
        proof -
          from right i have "c2 ! (2 * i - 1) = c1 ! (2 * i - 1)"
            by (intro mp [OF spec [OF frame2]]) auto
          with right i show ?thesis
            by (auto simp: nth_c1)
        qed
        from chose asym have "\<not> compare v (c ! (2 * i - 1))"
          by (auto simp: asymmetric_def)
        moreover from right not_w have "\<not> compare v (c2 ! (2 * i))"
          by simp
        ultimately show ?thesis
          using sib at_i by (auto simp: stays_def larger_child_def)
      qed
    qed
    have all: "\<forall>j. m \<le> j \<and> j \<notin> A \<longrightarrow> stays compare c2 j"
      using rest2 stay_i by auto
    have frame: "\<forall>k. 1 \<le> k \<and> k < 2 * i \<and> k \<noteq> i \<longrightarrow> c2 ! (k - 1) = c ! (k - 1)"
    proof (intro allI impI)
      fix k
      assume k: "1 \<le> k \<and> k < 2 * i \<and> k \<noteq> i"
      with b_cases have kb: "k < 2 * b" "k \<noteq> b" "k < b"
        by auto
      with k frame2 have "c2 ! (k - 1) = c1 ! (k - 1)"
        by blast
      also from k kb have "\<dots> = c ! (k - 1)"
        by (intro same) auto
      finally show "c2 ! (k - 1) = c ! (k - 1)" .
    qed
    from at_i b_le have "larger_child compare i c \<le> length c \<and>
          c2 ! (i - 1) = c ! (larger_child compare i c - 1)"
      by (simp add: b_def v_def)
    with pd len len2 all frame show ?thesis
      by auto
  qed
qed

lemma stays_beyond: "length c div 2 < k \<Longrightarrow> stays compare c k"
proof -
  assume "length c div 2 < k"
  then have "length c < 2 * k"
    by arith
  moreover have "2 * k \<le> larger_child compare k c"
    using larger_child_cases [of compare k c] by auto
  ultimately show ?thesis
    by (simp add: stays_def)
qed

lemma percolateDown_at_rest:
  assumes "stays compare c i" "1 \<le> i" "i < 2 ^ 63" "length c < 2 ^ 63"
  shows "percolateDown compare i c = Inr (False, c)"
proof -
  from assms(1) have "percolateDown_step compare i c = Inr None"
    by (simp add: percolateDown_step_eq [OF assms(2-4)] stays_def)
  then show ?thesis
    by (simp add: percolateDown.simps)
qed

lemma heapify_spec_at_rest:
  "\<forall>k. 1 \<le> k \<longrightarrow> stays compare c k \<Longrightarrow> j < 2 ^ 63 \<Longrightarrow> length c < 2 ^ 63 \<Longrightarrow>
   heapify_spec compare j c = Inr c"
proof (induction j)
  case 0
  show ?case by simp
next
  case (Suc j)
  then have "percolateDown compare (Suc j) c = Inr (False, c)"
    by (intro percolateDown_at_rest) auto
  with Suc show ?case
    by simp
qed

lemma heapify_spec_stays:
  assumes asym: "asymmetric compare"
  shows "j < 2 ^ 63 \<Longrightarrow> length c < 2 ^ 63 \<Longrightarrow> \<forall>k. Suc j \<le> k \<longrightarrow> stays compare c k \<Longrightarrow>
         \<exists>c'. heapify_spec compare j c = Inr c' \<and> length c' = length c
              \<and> (\<forall>k. 1 \<le> k \<longrightarrow> stays compare c' k)"
proof (induction j arbitrary: c)
  case 0
  then show ?case by simp
next
  case (Suc j)
  have "\<forall>a \<in> {}. a < Suc j" "Suc j \<le> Suc j div 2 \<longrightarrow> Suc j div 2 \<in> {}"
    by auto
  moreover from Suc.prems(3)
  have "\<forall>k. Suc j \<le> k \<and> k \<notin> {} \<and> k \<noteq> Suc j \<longrightarrow> stays compare c k"
    by auto
  ultimately obtain b c1 where pd: "percolateDown compare (Suc j) c = Inr (b, c1)"
    "length c1 = length c" "\<forall>k. Suc j \<le> k \<and> k \<notin> {} \<longrightarrow> stays compare c1 k"
    using percolateDown_stays [OF asym _ le_refl Suc.prems(1,2), of "{}"] by auto
  from Suc.prems pd have "j < 2 ^ 63" "length c1 < 2 ^ 63" "\<forall>k. Suc j \<le> k \<longrightarrow> stays compare c1 k"
    by auto
  from Suc.IH [OF this] pd show ?case
    by auto
qed

lemma heapify_idem:
  assumes asym: "asymmetric compare" and len: "length c < 2 ^ 32 - 2"
  shows "\<exists>c'. heapify compare c = Inr c' \<and> heapify compare c' = Inr c'"
proof -
  from len have b: "length c div 2 < 2 ^ 63" "length c < 2 ^ 63"
    by simp_all
  have "\<forall>k. Suc (length c div 2) \<le> k \<longrightarrow> stays compare c k"
    by (auto intro: stays_beyond)
  from heapify_spec_stays [OF asym b this]
  obtain c' where h: "heapify_spec compare (length c div 2) c = Inr c'" "length c' = length c"
    "\<forall>k. 1 \<le> k \<longrightarrow> stays compare c' k"
    by blast
  from h(2) len b have len': "length c' < 2 ^ 32 - 2" "length c' div 2 < 2 ^ 63" "length c' < 2 ^ 63"
    by simp_all
  from heapify_spec_at_rest [OF h(3) len'(2,3)]
  have "heapify compare c' = Inr c'"
    by (simp add: heapify_eq_spec [OF len'(1)])
  with h(1) show ?thesis
    by (simp add: heapify_eq_spec [OF len])
qed

lemmas heapify_eval =
  heapify_def to_int_def INT_MAX_def heapify_loop.simps percolateDown_eval

section \<open>The claims\<close>

text \<open>
  C1 (the code differs). Claim: on a queue whose storage is a max-heap, \<open>push\<close> (either
  overload) leaves the heap invariant holding over the whole buffer and the size one
  larger. On the heap \<open>[5, 3]\<close> under \<^verbatim>\<open>std::less\<close>, \<open>push 9\<close> appends the 9 and starts
  its loop at heap index 2, a leaf: nothing moves, and the root 5 stays above its right
  child 9.
\<close>

theorem push_breaks_heap:
  "is_heap (<) [5, 3 :: nat] \<and> push (<) 9 [5, 3 :: nat] = Inr [5, 3, 9]
   \<and> \<not> is_heap (<) [5, 3, 9 :: nat]"
proof (intro conjI)
  show "is_heap (<) [5, 3 :: nat]"
    by (simp add: is_heap_list upt_rec)
  show "push (<) 9 [5, 3 :: nat] = Inr [5, 3, 9]"
    by (simp add: push_def push_back_def push_start_def push_loop.simps percolateDown_eval)
  show "\<not> is_heap (<) [5, 3, 9 :: nat]"
    by (simp add: is_heap_list upt_rec)
qed

theorem push_breaks_heap_witness:
  "\<exists>c'. push (<) 9 [5, 3 :: nat] = Inr c' \<and> length c' = 3 \<and> \<not> is_heap (<) c'"
  using push_breaks_heap by simp

text \<open>
  C2, as stated: \<open>pop\<close> on every non-empty max-heap leaves a max-heap of one element
  less. It fails for a comparator that is no strict weak ordering: under
  \<^verbatim>\<open>std::less<double>\<close> the heap \<open>[9, NaN, 5, 1]\<close> becomes \<open>[1, NaN, 5]\<close>, with 1 above 5,
  and under \<^verbatim>\<open>std::less_equal\<close> the heap \<open>[3, 2, 2]\<close> becomes \<open>[2, 2]\<close>. The \<open>pop\<close> of
  \<^verbatim>\<open>src/priority_queue.h\<close> removes nothing.
\<close>

theorem pop_counterexample:
  "is_heap nan_less [Some 9, None, Some 5, Some 1]
   \<and> pop nan_less [Some 9, None, Some 5, Some 1] = Inr [Some 1, None, Some 5]
   \<and> \<not> is_heap nan_less [Some 1, None, Some 5]
   \<and> is_heap (\<le>) [3, 2, 2 :: nat]
   \<and> pop (\<le>) [3, 2, 2 :: nat] = Inr [2, 2]
   \<and> \<not> is_heap (\<le>) [2, 2 :: nat]
   \<and> pop_h [9, 7, 8, 5 :: nat] = [9, 7, 8, 5]"
proof (intro conjI)
  show "is_heap nan_less [Some 9, None, Some 5, Some 1]"
    by (simp add: is_heap_list upt_rec nan_less_def)
  show "pop nan_less [Some 9, None, Some 5, Some 1] = Inr [Some 1, None, Some 5]"
    by (simp add: pop_def empty_def pop_back_def percolateDown_eval nan_less_def)
  show "\<not> is_heap nan_less [Some 1, None, Some 5]"
    by (simp add: is_heap_list upt_rec nan_less_def)
  show "is_heap (\<le>) [3, 2, 2 :: nat]"
    by (simp add: is_heap_list upt_rec)
  show "pop (\<le>) [3, 2, 2 :: nat] = Inr [2, 2]"
    by (simp add: pop_def empty_def pop_back_def percolateDown_eval)
  show "\<not> is_heap (\<le>) [2, 2 :: nat]"
    by (simp add: is_heap_list upt_rec)
  show "pop_h [9, 7, 8, 5 :: nat] = [9, 7, 8, 5]"
    by (simp add: pop_h_def)
qed

text \<open>
  C2, amended. In \<^verbatim>\<open>src/unnamed/part_000\<close>, for every comparator that is a strict weak
  ordering and every non-empty queue of fewer than \<open>2 ^ 63\<close> elements whose storage is
  a max-heap: \<open>pop\<close> exchanges the root with the last element and removes the now-last
  slot (what is left is the old last element followed by the elements that stood
  between the two), percolates the new root down from heap index 1, and ends with
  one element less, the old elements without the old root, and the heap invariant
  over the remaining buffer.
\<close>

theorem pop_restores_heap:
  assumes "strict_weak_order compare" and "c \<noteq> []" and "length c < 2 ^ 63"
    and "is_heap compare c"
  shows "\<exists>b c'. pop compare c = Inr c'
            \<and> percolateDown compare 1 (take (length c - 1) (last c # tl c)) = Inr (b, c')
            \<and> length c' + 1 = length c
            \<and> mset c' + {#c ! 0#} = mset c
            \<and> is_heap compare c'"
proof -
  from pop_heap [OF assms(1,2,4,3)]
  obtain b c' where p: "pop compare c = Inr c'"
    "percolateDown compare 1 (butlast (swap_at c 0 (length c - 1))) = Inr (b, c')"
    "length c' = length c - 1" "mset c' + {#c ! 0#} = mset c" "is_heap compare c'"
    by blast
  from assms(2) have "length c - 1 + 1 = length c"
    by (cases c) simp_all
  with p(3) have "length c' + 1 = length c"
    by simp
  with p butlast_swap_at_last [OF assms(2)] show ?thesis
    by auto
qed

theorem pop_restores_heap_witness:
  "pop (<) [9, 7, 8, 5 :: nat] = Inr [8, 7, 5] \<and> is_heap (<) [8, 7, 5 :: nat]"
proof -
  have h: "is_heap (<) [9, 7, 8, 5 :: nat]"
    by (simp add: is_heap_list upt_rec)
  have ne: "[9, 7, 8, 5 :: nat] \<noteq> []"
    by simp
  have len: "length [9, 7, 8, 5 :: nat] < 2 ^ 63"
    by simp
  from pop_restores_heap [OF swo_linorder ne len h]
  obtain c' where p: "pop (<) [9, 7, 8, 5 :: nat] = Inr c'" "is_heap (<) c'"
    by blast
  have "pop (<) [9, 7, 8, 5 :: nat] = Inr [8, 7, 5]"
    by (simp add: pop_def empty_def pop_back_def percolateDown_eval)
  with p show ?thesis
    by simp
qed

text \<open>
  C3, as stated: the rule of \<open>percolateDown i\<close> holds for every heap index \<open>i\<close>. At
  \<open>i = 2 ^ 63\<close> the product \<open>2 * i\<close> wraps to 0: on the container \<open>[1]\<close> no child exists
  and the step should stop, but it reads \<^verbatim>\<open>container[0 - 1]\<close>. In
  \<^verbatim>\<open>src/priority_queue.h\<close> the step does nothing when only the left child exists: on
  \<open>[1, 5]\<close> the node 1 stays above its left child 5.
\<close>

theorem percolateDown_counterexample:
  "percolateDown (<) (2 ^ 63) [1 :: nat] = Inl OutOfBounds
   \<and> percolateDown_h 1 [1, 5 :: nat] = Inr (False, [1, 5])"
  by (simp add: percolateDown_eval percolateDown_h.simps percolateDown_step_h_def)

text \<open>
  C3, amended. In \<open>percolateDown i\<close> of \<^verbatim>\<open>src/unnamed/part_000\<close>, for every container of
  fewer than \<open>2 ^ 63\<close> elements and every heap index \<open>1 \<le> i < 2 ^ 63\<close>: when the right
  child \<open>2 * i + 1\<close> is inside the storage, the candidate is the right child exactly
  when \<open>compare left right\<close> holds and the left child otherwise (a tie selects the left
  child); when it is not, the candidate is the left child \<open>2 * i\<close>. The node is
  exchanged with the candidate (the two elements trade places and no other element
  moves), and the step goes on from the candidate, exactly when the candidate is
  inside the storage and \<open>compare node candidate\<close> holds; otherwise the step stops,
  returns \<^verbatim>\<open>false\<close> and leaves the container as it was.
\<close>

theorem percolateDown_candidate_and_swap:
  assumes "1 \<le> i" and "i < 2 ^ 63" and "length c < 2 ^ 63"
  shows "\<exists>cand. indexBigger_of compare i c = Inr cand
     \<and> cand = larger_child compare i c
     \<and> (2 * i + 1 \<le> length c \<longrightarrow>
          (cand = 2 * i + 1 \<longleftrightarrow> compare (c ! (2 * i - 1)) (c ! (2 * i))) \<and>
          (cand = 2 * i \<longleftrightarrow> \<not> compare (c ! (2 * i - 1)) (c ! (2 * i))))
     \<and> (length c < 2 * i + 1 \<longrightarrow> cand = 2 * i)
     \<and> (cand \<le> length c \<and> compare (c ! (i - 1)) (c ! (cand - 1)) \<longrightarrow>
          percolateDown_step compare i c =
            Inr (Some (cand, c[i - 1 := c ! (cand - 1), cand - 1 := c ! (i - 1)])) \<and>
          percolateDown compare i c =
            (case percolateDown compare cand (c[i - 1 := c ! (cand - 1), cand - 1 := c ! (i - 1)]) of
               Inl e \<Rightarrow> Inl e
             | Inr (_, c') \<Rightarrow> Inr (True, c')))
     \<and> (\<not> (cand \<le> length c \<and> compare (c ! (i - 1)) (c ! (cand - 1))) \<longrightarrow>
          percolateDown_step compare i c = Inr None \<and>
          percolateDown compare i c = Inr (False, c))"
proof -
  let ?b = "larger_child compare i c"
  have sel: "indexBigger_of compare i c = Inr ?b"
    using assms by (rule indexBigger_of_eq)
  have right: "2 * i + 1 \<le> length c \<longrightarrow>
          (?b = 2 * i + 1 \<longleftrightarrow> compare (c ! (2 * i - 1)) (c ! (2 * i))) \<and>
          (?b = 2 * i \<longleftrightarrow> \<not> compare (c ! (2 * i - 1)) (c ! (2 * i)))"
    by (simp add: larger_child_def)
  have left: "length c < 2 * i + 1 \<longrightarrow> ?b = 2 * i"
    by (simp add: larger_child_def)
  have swap: "?b \<le> length c \<and> compare (c ! (i - 1)) (c ! (?b - 1)) \<longrightarrow>
          percolateDown_step compare i c =
            Inr (Some (?b, c[i - 1 := c ! (?b - 1), ?b - 1 := c ! (i - 1)])) \<and>
          percolateDown compare i c =
            (case percolateDown compare ?b (c[i - 1 := c ! (?b - 1), ?b - 1 := c ! (i - 1)]) of
               Inl e \<Rightarrow> Inl e
             | Inr (_, c') \<Rightarrow> Inr (True, c'))"
    by (simp add: percolateDown_step_eq [OF assms] percolateDown.simps [of compare i c]
        swap_at_def)
  have stop: "\<not> (?b \<le> length c \<and> compare (c ! (i - 1)) (c ! (?b - 1))) \<longrightarrow>
          percolateDown_step compare i c = Inr None \<and>
          percolateDown compare i c = Inr (False, c)"
    by (simp add: percolateDown_step_eq [OF assms] percolateDown.simps [of compare i c])
  from sel right left swap stop show ?thesis
    by blast
qed

theorem percolateDown_candidate_and_swap_witness:
  "indexBigger_of (<) 1 [1, 5, 5, 0 :: nat] = Inr 2
   \<and> percolateDown_step (<) 1 [1, 5, 5, 0 :: nat] = Inr (Some (2, [5, 1, 5, 0]))
   \<and> percolateDown (<) 1 [1, 5, 5, 0 :: nat] = Inr (True, [5, 1, 5, 0])"
proof -
  have one: "(1 :: nat) \<le> 1" "(1 :: nat) < 2 ^ 63" "length [1, 5, 5, 0 :: nat] < 2 ^ 63"
    by simp_all
  have rec: "percolateDown (<) 2 [5, 1, 5, 0 :: nat] = Inr (False, [5, 1, 5, 0])"
    by (simp add: percolateDown_eval)
  from percolateDown_candidate_and_swap [OF one, of "(<)"] rec
  show ?thesis
    by (simp add: larger_child_def)
qed

text \<open>
  C4, as stated: \<open>heapify\<close> turns every storage contents into a max-heap. It fails for
  a comparator that is no strict weak ordering (\<open>[1, NaN, 5]\<close> under
  \<^verbatim>\<open>std::less<double>\<close> and \<open>[2, 2]\<close> under \<^verbatim>\<open>std::less_equal\<close> stay as they are), and
  for a container of \<open>2 ^ 32\<close> elements: the \<^verbatim>\<open>int\<close> loop variable starts negative, no
  step runs, and a last element above its parent stays there. The \<open>heapify\<close> of
  \<^verbatim>\<open>src/priority_queue.h\<close> ends in a read outside the storage (C10).
\<close>

theorem heapify_counterexample:
  "heapify nan_less [Some 1, None, Some 5] = Inr [Some 1, None, Some 5]
   \<and> \<not> is_heap nan_less [Some 1, None, Some 5]
   \<and> heapify (\<le>) [2, 2 :: nat] = Inr [2, 2]
   \<and> \<not> is_heap (\<le>) [2, 2 :: nat]
   \<and> heapify (<) (replicate (2 ^ 32 - 1) 0 @ [1 :: nat]) = Inr (replicate (2 ^ 32 - 1) 0 @ [1])
   \<and> \<not> is_heap (<) (replicate (2 ^ 32 - 1) 0 @ [1 :: nat])
   \<and> heapify_h [1, 5 :: nat] = Inl OutOfBounds"
proof (intro conjI)
  show "heapify nan_less [Some 1, None, Some 5] = Inr [Some 1, None, Some 5]"
    by (simp add: heapify_eval nan_less_def)
  show "\<not> is_heap nan_less [Some 1, None, Some 5]"
    by (simp add: is_heap_list upt_rec nan_less_def)
  show "heapify (\<le>) [2, 2 :: nat] = Inr [2, 2]"
    by (simp add: heapify_eval)
  show "\<not> is_heap (\<le>) [2, 2 :: nat]"
    by (simp add: is_heap_list upt_rec)
  show "heapify (<) (replicate (2 ^ 32 - 1) 0 @ [1 :: nat]) = Inr (replicate (2 ^ 32 - 1) 0 @ [1])"
    by (simp add: heapify_def to_int_def heapify_loop_done)
  show "\<not> is_heap (<) (replicate (2 ^ 32 - 1) 0 @ [1 :: nat])"
  proof
    assume "is_heap (<) (replicate (2 ^ 32 - 1) 0 @ [1 :: nat])"
    moreover have "(2 ^ 31 :: nat) \<in> {1..length (replicate (2 ^ 32 - 1) 0 @ [1 :: nat])}"
      by simp
    ultimately have "2 * 2 ^ 31 \<le> length (replicate (2 ^ 32 - 1) 0 @ [1 :: nat]) \<longrightarrow>
        \<not> (replicate (2 ^ 32 - 1) 0 @ [1 :: nat]) ! (2 ^ 31 - 1)
          < (replicate (2 ^ 32 - 1) 0 @ [1 :: nat]) ! (2 * 2 ^ 31 - 1)"
      unfolding is_heap_def by blast
    then show False
      by (simp add: nth_append)
  qed
  show "heapify_h [1, 5 :: nat] = Inl OutOfBounds"
    by (rule heapify_h_error) simp_all
qed

text \<open>
  C4, amended. In \<^verbatim>\<open>src/unnamed/part_000\<close>, for every comparator that is a strict weak
  ordering and every storage contents of fewer than \<open>2 ^ 32 - 2\<close> elements (so that
  \<open>size div 2\<close> and \<^verbatim>\<open>i + 1\<close> fit the \<^verbatim>\<open>int\<close> loop variable): \<open>heapify\<close> runs
  \<open>percolateDown\<close> at every heap index from the midpoint \<open>size div 2\<close> down to 1 (the
  call the loop makes first, at \<open>size div 2 + 1\<close>, finds no child and changes nothing),
  and afterwards the buffer holds the same elements and satisfies the max-heap
  invariant: for every heap index \<open>i\<close> and each child \<open>2 * i\<close>, \<open>2 * i + 1\<close> inside the
  storage, \<open>compare\<close> of the element at \<open>i\<close> and the child is false.
\<close>

theorem heapify_makes_heap:
  assumes "strict_weak_order compare" and "length c < 2 ^ 32 - 2"
  shows "heapify compare c = heapify_spec compare (length c div 2) c
         \<and> (\<exists>c'. heapify compare c = Inr c' \<and> length c' = length c \<and> mset c' = mset c
              \<and> is_heap compare c'
              \<and> (\<forall>i. 1 \<le> i \<and> i \<le> length c' \<longrightarrow>
                    (2 * i \<le> length c' \<longrightarrow> \<not> compare (c' ! (i - 1)) (c' ! (2 * i - 1))) \<and>
                    (2 * i + 1 \<le> length c' \<longrightarrow> \<not> compare (c' ! (i - 1)) (c' ! (2 * i)))))"
proof -
  from heapify_heap [OF assms]
  obtain c' where h: "heapify compare c = Inr c'" "length c' = length c" "mset c' = mset c"
    "is_heap compare c'"
    by blast
  from h(4) have "\<forall>i. 1 \<le> i \<and> i \<le> length c' \<longrightarrow>
      (2 * i \<le> length c' \<longrightarrow> \<not> compare (c' ! (i - 1)) (c' ! (2 * i - 1))) \<and>
      (2 * i + 1 \<le> length c' \<longrightarrow> \<not> compare (c' ! (i - 1)) (c' ! (2 * i)))"
    unfolding is_heap_def by simp
  with h heapify_eq_spec [OF assms(2), of compare] show ?thesis
    by blast
qed

theorem heapify_makes_heap_witness:
  "heapify (<) [1, 5, 3, 9 :: nat] = Inr [9, 5, 3, 1] \<and> is_heap (<) [9, 5, 3, 1 :: nat]"
proof -
  have len: "length [1, 5, 3, 9 :: nat] < 2 ^ 32 - 2"
    by simp
  from heapify_makes_heap [OF swo_linorder len]
  obtain c' where h: "heapify (<) [1, 5, 3, 9 :: nat] = Inr c'" "is_heap (<) c'"
    by blast
  have "heapify (<) [1, 5, 3, 9 :: nat] = Inr [9, 5, 3, 1]"
    by (simp add: heapify_eval)
  with h show ?thesis
    by simp
qed

text \<open>
  C5. \<open>top\<close> signals the out-of-range error exactly when the queue holds no element,
  signals no other error, and on a non-empty queue returns the element at storage
  offset 0. It returns a value and no container: it has no effect on the queue.
\<close>

theorem top_empty_or_root:
  "(top c = Inl OutOfRange \<longleftrightarrow> length c = 0)
   \<and> (\<forall>e. top c = Inl e \<longrightarrow> e = OutOfRange)
   \<and> (length c \<noteq> 0 \<longrightarrow> top c = Inr (c ! 0))"
  by (auto simp: top_def empty_def front_def at_def)

theorem top_empty_or_root_witness:
  "top [7, 3 :: nat] = Inr 7 \<and> top ([] :: nat list) = Inl OutOfRange"
  using top_empty_or_root [of "[7, 3 :: nat]"] top_empty_or_root [of "[] :: nat list"]
  by simp

text \<open>
  C6 (the code differs). Claim: \<open>pop\<close> on an empty queue either changes nothing or
  signals the empty-container error, and never asks empty storage to shrink. On the
  empty queue \<open>pop\<close> skips the swap and then calls \<^verbatim>\<open>pop_back\<close> on the empty storage: it
  neither returns the storage untouched nor signals \<open>OutOfRange\<close>.
\<close>

theorem pop_empty_calls_pop_back:
  "pop compare [] = Inl PopBackEmpty \<and> pop compare [] \<noteq> Inr [] \<and> pop compare [] \<noteq> Inl OutOfRange"
  by (simp add: pop_def empty_def pop_back_def)

text \<open>
  C7 (the code differs). Claim: after the append, the loop of \<open>push\<close> starts at the parent
  of the new leaf, heap index \<open>new_size div 2\<close>. It starts at \<open>(new_size + 1) div 2\<close>:
  the parent when the new size is even, the node after the parent when it is odd.
  After \<open>push 9\<close> on \<open>[5, 3]\<close> the new leaf is 3, its parent 1, and the loop starts at 2.
\<close>

theorem push_starts_past_parent:
  "push compare t c = push_loop compare (push_start (push_back t c)) (push_back t c)
   \<and> push_start (push_back t c) =
       (if even (length (push_back t c)) then length (push_back t c) div 2
        else length (push_back t c) div 2 + 1)"
  by (simp add: push_def push_start_def Let_def)

theorem push_starts_past_parent_witness:
  "push_start (push_back (9 :: nat) [5, 3]) = 2 \<and> length (push_back (9 :: nat) [5, 3]) div 2 = 1"
  using push_starts_past_parent [of "(<)" "9 :: nat" "[5, 3]"]
  by (simp add: push_back_def)

text \<open>
  C8, as stated: a second \<open>heapify\<close> never changes the order the first one left. It
  fails for a comparator that is not asymmetric: under \<open>key_le\<close> two records with equal
  keys trade places at every \<open>heapify\<close>. It fails for a container of \<open>2 ^ 33 + 2\<close>
  elements: the \<^verbatim>\<open>int\<close> loop variable starts at 1, only the heap indices 2 and 1 are
  restored, and the second \<open>heapify\<close> moves the 100 that the first one lifted to
  index 2.
\<close>

theorem heapify_twice_counterexample:
  "heapify key_le [(1, 0), (1, 1)] = Inr [(1, 1), (1, 0)]
   \<and> heapify key_le [(1, 1), (1, 0)] = Inr [(1, 0), (1, 1)]
   \<and> heapify (<) ([1, 5, 0, 9, 0, 0, 0, 100, 0 :: nat] @ replicate (2 ^ 33 - 7) 0)
       = Inr ([9, 100, 0, 5, 0, 0, 0, 1, 0] @ replicate (2 ^ 33 - 7) 0)
   \<and> heapify (<) ([9, 100, 0, 5, 0, 0, 0, 1, 0 :: nat] @ replicate (2 ^ 33 - 7) 0)
       = Inr ([100, 9, 0, 5, 0, 0, 0, 1, 0] @ replicate (2 ^ 33 - 7) 0)"
proof (intro conjI)
  show "heapify key_le [(1, 0), (1, 1)] = Inr [(1, 1), (1, 0)]"
    by (simp add: heapify_eval key_le_def)
  show "heapify key_le [(1, 1), (1, 0)] = Inr [(1, 0), (1, 1)]"
    by (simp add: heapify_eval key_le_def)
  show "heapify (<) ([1, 5, 0, 9, 0, 0, 0, 100, 0 :: nat] @ replicate (2 ^ 33 - 7) 0)
       = Inr ([9, 100, 0, 5, 0, 0, 0, 1, 0] @ replicate (2 ^ 33 - 7) 0)"
    by (simp add: heapify_eval nth_append list_update_append)
  show "heapify (<) ([9, 100, 0, 5, 0, 0, 0, 1, 0 :: nat] @ replicate (2 ^ 33 - 7) 0)
       = Inr ([100, 9, 0, 5, 0, 0, 0, 1, 0] @ replicate (2 ^ 33 - 7) 0)"
    by (simp add: heapify_eval nth_append list_update_append)
qed

text \<open>
  C8, amended. For every asymmetric comparator (every strict weak ordering is one) and
  every storage contents of fewer than \<open>2 ^ 32 - 2\<close> elements, a second \<open>heapify\<close>
  returns the element order the first one produced.
\<close>

theorem heapify_idempotent:
  assumes "asymmetric compare" and "length c < 2 ^ 32 - 2"
  shows "\<exists>c'. heapify compare c = Inr c' \<and> heapify compare c' = Inr c'"
  using assms by (rule heapify_idem)

theorem heapify_idempotent_witness:
  "heapify (<) [1, 5, 3, 9 :: nat] = Inr [9, 5, 3, 1]
   \<and> heapify (<) [9, 5, 3, 1 :: nat] = Inr [9, 5, 3, 1]"
proof -
  have len: "length [1, 5, 3, 9 :: nat] < 2 ^ 32 - 2"
    by simp
  from heapify_idempotent [OF asymmetric_linorder len]
  obtain c' where h: "heapify (<) [1, 5, 3, 9 :: nat] = Inr c'" "heapify (<) c' = Inr c'"
    by blast
  have "heapify (<) [1, 5, 3, 9 :: nat] = Inr [9, 5, 3, 1]"
    by (simp add: heapify_eval)
  with h show ?thesis
    by simp
qed

text \<open>
  C9, as stated: \<open>percolateDown i\<close> goes on to a child index of at least \<open>2 * i\<close>, or
  stops, for every heap index \<open>i \<ge> 1\<close>. At \<open>i = 2 ^ 63\<close> the child index \<open>2 * i\<close> wraps
  to 0, and on the container \<open>[1]\<close> both variants neither stop nor go on to a child:
  they read \<^verbatim>\<open>container[0 - 1]\<close>.
\<close>

theorem percolateDown_wraps_counterexample:
  "indexBigger_of (<) (2 ^ 63) [1 :: nat] = Inl OutOfBounds
   \<and> percolateDown_step (<) (2 ^ 63) [1 :: nat] = Inl OutOfBounds
   \<and> percolateDown_step_h (2 ^ 63) [1 :: nat] = Inl OutOfBounds"
  by (simp add: percolateDown_step_def indexBigger_of_def percolateDown_step_h_def heap_at_def
      size_t_def)

text \<open>
  C9, amended. For every container of fewer than \<open>2 ^ 63\<close> elements and every heap index
  \<open>1 \<le> i < 2 ^ 63\<close>, \<open>percolateDown i\<close> terminates with a result, in both variants: each
  recursive call goes to the index \<open>2 * i\<close> or \<open>2 * i + 1\<close> inside the storage, there is
  no recursive call once the candidate index exceeds the size, and the number \<open>d\<close> of
  nested calls satisfies \<open>i * 2 ^ d \<le> max i size\<close>, so it is at most the height of the
  heap.
\<close>

theorem percolateDown_terminates:
  fixes c :: "('a :: ord) list"
  assumes "1 \<le> i" and "i < 2 ^ 63" and "length c < 2 ^ 63"
  shows "(\<exists>b c'. percolateDown compare i c = Inr (b, c') \<and> length c' = length c)
         \<and> (\<forall>j c'. percolateDown_step compare i c = Inr (Some (j, c'))
               \<longrightarrow> 2 * i \<le> j \<and> j \<le> 2 * i + 1 \<and> j \<le> length c \<and> length c' = length c)
         \<and> (\<forall>cand. indexBigger_of compare i c = Inr cand \<and> length c < cand
               \<longrightarrow> percolateDown_step compare i c = Inr None
                   \<and> percolateDown_depth compare i c = 0)
         \<and> i * 2 ^ percolateDown_depth compare i c \<le> max i (length c)
         \<and> (\<exists>b c'. percolateDown_h i c = Inr (b, c') \<and> length c' = length c)
         \<and> (\<forall>j c'. percolateDown_step_h i c = Inr (Some (j, c'))
               \<longrightarrow> 2 * i \<le> j \<and> j \<le> 2 * i + 1 \<and> j \<le> length c \<and> length c' = length c)
         \<and> (length c < 2 * i + 1
               \<longrightarrow> percolateDown_step_h i c = Inr None \<and> percolateDown_depth_h i c = 0)
         \<and> i * 2 ^ percolateDown_depth_h i c \<le> max i (length c)"
proof (intro conjI allI impI)
  show "\<exists>b c'. percolateDown compare i c = Inr (b, c') \<and> length c' = length c"
    using percolateDown_no_error [OF assms, of compare] by blast
next
  fix j c'
  assume "percolateDown_step compare i c = Inr (Some (j, c'))"
  from percolateDown_step_Some [OF this]
  show "2 * i \<le> j" "j \<le> 2 * i + 1" "j \<le> length c" "length c' = length c"
    by blast+
next
  fix cand
  assume "indexBigger_of compare i c = Inr cand \<and> length c < cand"
  then show stop: "percolateDown_step compare i c = Inr None"
    by (simp add: percolateDown_step_def)
  then show "percolateDown_depth compare i c = 0"
    by (simp add: percolateDown_depth.simps)
next
  show "i * 2 ^ percolateDown_depth compare i c \<le> max i (length c)"
    using assms(1) by (rule percolateDown_depth_bound)
next
  show "\<exists>b c'. percolateDown_h i c = Inr (b, c') \<and> length c' = length c"
    using assms by (rule percolateDown_h_no_error)
next
  fix j c'
  assume "percolateDown_step_h i c = Inr (Some (j, c'))"
  from percolateDown_step_h_Some [OF this]
  show "2 * i \<le> j" "j \<le> 2 * i + 1" "j \<le> length c" "length c' = length c"
    by blast+
next
  assume short: "length c < 2 * i + 1"
  from size_t_double [OF assms(2)]
  have "size_t (i * 2) = 2 * i" "size_t (Suc (2 * i)) = Suc (2 * i)"
    by (simp_all add: mult.commute)
  with short show stop: "percolateDown_step_h i c = Inr None"
    by (simp add: percolateDown_step_h_def Let_def)
  then show "percolateDown_depth_h i c = 0"
    by (simp add: percolateDown_depth_h.simps)
next
  show "i * 2 ^ percolateDown_depth_h i c \<le> max i (length c)"
    using assms(1) by (rule percolateDown_depth_h_bound)
qed

theorem percolateDown_terminates_witness:
  "(\<exists>b c'. percolateDown (<) 1 [1, 5, 3, 9 :: nat] = Inr (b, c')
            \<and> length c' = length [1, 5, 3, 9 :: nat])
   \<and> 1 * 2 ^ percolateDown_depth (<) 1 [1, 5, 3, 9 :: nat] \<le> max 1 (length [1, 5, 3, 9 :: nat])
   \<and> (\<exists>b c'. percolateDown_h 1 [1, 5, 3, 9 :: nat] = Inr (b, c')
            \<and> length c' = length [1, 5, 3, 9 :: nat])
   \<and> 1 * 2 ^ percolateDown_depth_h 1 [1, 5, 3, 9 :: nat] \<le> max 1 (length [1, 5, 3, 9 :: nat])"
proof -
  have one: "(1 :: nat) \<le> 1" "(1 :: nat) < 2 ^ 63" "length [1, 5, 3, 9 :: nat] < 2 ^ 63"
    by simp_all
  from percolateDown_terminates [OF one, of "(<)"] show ?thesis
    by blast
qed

text \<open>
  C10 (the code differs). Claim: every access of \<open>heapify\<close> and \<open>percolateDown\<close> stays
  inside the storage, and \<open>percolateDown\<close> is never called with heap index 0. The
  \<open>heapify\<close> of \<^verbatim>\<open>src/priority_queue.h\<close> ends its run with \<^verbatim>\<open>percolateDown(0)\<close>, which on
  a non-empty container reads \<^verbatim>\<open>container[0 - 1]\<close>. The run reaches that call on every
  non-empty container of fewer than \<open>2 ^ 32\<close> elements, where the \<^verbatim>\<open>int\<close> loop variable
  starts at \<open>size div 2\<close>.
\<close>

theorem heapify_h_reads_outside:
  assumes "c \<noteq> []"
  shows "percolateDown_h 0 c = Inl OutOfBounds
         \<and> (length c < 2 ^ 32 \<longrightarrow> heapify_h c = Inl OutOfBounds)"
  using assms by (simp add: heapify_h_error percolateDown_h_0)

theorem heapify_h_reads_outside_witness:
  "heapify_h [1 :: nat] = Inl OutOfBounds \<and> percolateDown_h 0 [1 :: nat] = Inl OutOfBounds"
proof -
  have "[1 :: nat] \<noteq> []"
    by simp
  from heapify_h_reads_outside [OF this] show ?thesis
    by simp
qed

section \<open>Further properties\<close>

text \<open>
  On a container of fewer than \<open>2 ^ 32 - 2\<close> elements the \<open>heapify\<close> of
  \<^verbatim>\<open>src/unnamed/part_000\<close> never reads outside the storage, whatever the comparator,
  and the buffer holds the same elements afterwards.
\<close>

theorem heapify_in_bounds:
  assumes "length c < 2 ^ 32 - 2"
  shows "\<exists>c'. heapify compare c = Inr c' \<and> length c' = length c \<and> mset c' = mset c"
  using assms by (rule heapify_no_error)

theorem heapify_in_bounds_witness:
  "\<exists>c'. heapify (\<le>) [2, 7, 7 :: nat] = Inr c' \<and> mset c' = mset [2, 7, 7 :: nat]"
proof -
  have "length [2, 7, 7 :: nat] < 2 ^ 32 - 2"
    by simp
  from heapify_in_bounds [OF this, of "(\<le>)"] show ?thesis
    by blast
qed

text \<open>
  \<open>push\<close> never reads outside the storage and leaves the queue with the old elements
  and the new one.
\<close>

theorem push_size:
  assumes "length c + 1 < 2 ^ 63"
  shows "\<exists>c'. push compare t c = Inr c' \<and> length c' = length c + 1
           \<and> mset c' = add_mset t (mset c)"
proof -
  from assms have "push_start (push_back t c) < 2 ^ 63" "length (push_back t c) < 2 ^ 63"
    by (simp_all add: push_start_def push_back_def)
  from push_loop_no_error [OF this, of compare] show ?thesis
    by (simp add: push_def push_back_def Let_def)
qed

theorem push_size_witness:
  "\<exists>c'. push (<) 9 [5, 3 :: nat] = Inr c' \<and> length c' = 3"
proof -
  have "length [5, 3 :: nat] + 1 < 2 ^ 63"
    by simp
  from push_size [OF this, of "(<)" 9] show ?thesis
    by auto
qed

end
